theory Spec2Isabelle
  imports Main "HOL-Library.Word" "HOL-Library.Signed_Division"
begin

section \<open>Machine integers and durations\<close>

text \<open>
  Go's \<^verbatim>\<open>int64\<close> (and \<^verbatim>\<open>int\<close> on the 64-bit targets the daemon is built for) is a
  64-bit word read in two's complement; \<^verbatim>\<open>time.Duration\<close> is an \<^verbatim>\<open>int64\<close> count of
  nanoseconds. Addition and multiplication wrap around; comparisons are signed.
\<close>

type_synonym int64 = "64 word"
type_synonym Duration = "64 word"

definition Second :: Duration where
  "Second = 1000000000"

definition Minute :: Duration where
  "Minute = 60 * Second"

text \<open>
  \<^verbatim>\<open>cmn.MinDur\<close> is called in \<^verbatim>\<open>reb/global.go\<close> but declared in a file of package
  \<^verbatim>\<open>cmn\<close> that is not among the sources. Modelled from the spec: the smaller of two
  durations (``clamped at 2x DestRetryTime'').
\<close>

definition MinDur :: "Duration \<Rightarrow> Duration \<Rightarrow> Duration" where
  "MinDur a b = (if a <s b then a else b)"

section \<open>Erasure coding: memory or disk (ec/ec.go)\<close>

text \<open>
  Modelled from the spec: package \<^verbatim>\<open>memsys\<close> is not among the sources. The spec lists
  the values of \<^verbatim>\<open>MemPressure()\<close> as Normal, High, Extreme, OOM, in increasing order;
  \<^verbatim>\<open>useDisk\<close> names \<^verbatim>\<open>memsys.MemPressureHigh\<close>, \<^verbatim>\<open>memsys.MemPressureExtreme\<close> and
  \<^verbatim>\<open>memsys.OOM\<close> and treats every other value in its \<^verbatim>\<open>default\<close> branch.
\<close>

datatype MemPressure = MemPressureNormal | MemPressureHigh | MemPressureExtreme | OOM

fun pressure_level :: "MemPressure \<Rightarrow> nat" where
  "pressure_level MemPressureNormal = 0"
| "pressure_level MemPressureHigh = 1"
| "pressure_level MemPressureExtreme = 2"
| "pressure_level OOM = 3"

text \<open>\<^verbatim>\<open>cmn.MiB\<close>: the binary megabyte, \<^verbatim>\<open>1024 * 1024\<close>.\<close>

definition MiB :: int64 where
  "MiB = 1024 * 1024"

definition objSizeHighMem :: int64 where
  "objSizeHighMem = 50 * MiB"

text \<open>
  \<^verbatim>\<open>useDisk(objSize)\<close> reads the pressure of the package-level memory manager \<^verbatim>\<open>mm\<close>;
  that reading is the first argument here.
\<close>

fun useDisk :: "MemPressure \<Rightarrow> int64 \<Rightarrow> bool" where
  "useDisk OOM objSize = True"
| "useDisk MemPressureExtreme objSize = True"
| "useDisk MemPressureHigh objSize = (objSizeHighMem <s objSize)"
| "useDisk MemPressureNormal objSize = False"

section \<open>Cluster map and configuration (the fields the rebalance code reads)\<close>

record Smap =
  Version :: int64
  Tmap :: "string list"  \<comment> \<open>the IDs of the targets, the keys of \<^verbatim>\<open>smap.Tmap\<close>\<close>

definition CountTargets :: "Smap \<Rightarrow> nat" where
  "CountTargets smap = length (Tmap smap)"

record RebalanceConf =
  DestRetryTime :: Duration
  Quiesce :: Duration

record TimeoutConf =
  CplaneOperation :: Duration

record Config =
  Rebalance :: RebalanceConf
  Timeout :: TimeoutConf

section \<open>The wait-ack deadline (reb/global.go, globalRebWaitAck)\<close>

text \<open>
  The first lines of \<^verbatim>\<open>globalRebWaitAck\<close>:
  \<^verbatim>\<open>maxwt := DestRetryTime; maxwt += Duration(int64(Minute) * int64(CountTargets()/10));
  maxwt = MinDur(maxwt, DestRetryTime*2)\<close>. The count of targets is a length, so the
  division by 10 is the one of the naturals.
\<close>

definition waitAck_maxwt :: "Config \<Rightarrow> Smap \<Rightarrow> Duration" where
  "waitAck_maxwt config smap =
     (let maxwt = DestRetryTime (Rebalance config);
          maxwt = maxwt + Minute * of_nat (CountTargets smap div 10)
      in MinDur maxwt (DestRetryTime (Rebalance config) * 2))"

section \<open>The rebalance manager (package reb)\<close>

text \<open>
  The stages of a rebalance run. Modelled from the spec: the \<^verbatim>\<open>rebStage...\<close> constants
  are declared in a file of package \<^verbatim>\<open>reb\<close> that is not among the sources; the spec
  lists them in this order. A stage is a \<^verbatim>\<open>uint32\<close>.
\<close>

type_synonym uint32 = "32 word"

definition rebStageInactive :: uint32 where "rebStageInactive = 0"
definition rebStageInit :: uint32 where "rebStageInit = 1"
definition rebStageTraverse :: uint32 where "rebStageTraverse = 2"
definition rebStageECGlobRepair :: uint32 where "rebStageECGlobRepair = 5"
definition rebStageECBatch :: uint32 where "rebStageECBatch = 6"
definition rebStageECCleanup :: uint32 where "rebStageECCleanup = 7"
definition rebStageWaitAck :: uint32 where "rebStageWaitAck = 8"
definition rebStageFin :: uint32 where "rebStageFin = 9"
definition rebStageDone :: uint32 where "rebStageDone = 10"

text \<open>The \<^verbatim>\<open>Status\<close> a target returns to a health poll (the fields the pollers read).\<close>

record Status =
  StTmap :: "string list"  \<comment> \<open>IDs of the targets the peer waits for ACKs from\<close>
  SmapVersion :: int64
  RebVersion :: int64
  GlobRebID :: int64
  Stage :: uint32
  Aborted :: bool
  Running :: bool
  Quiescent :: bool

text \<open>A locally stored object, as far as \<^verbatim>\<open>send\<close> reads it.\<close>

record LOM =
  Uname :: string
  FQN :: string
  Size :: int64
  HkeyIdx :: nat  \<comment> \<open>the second result of \<^verbatim>\<open>lom.Hkey()\<close>: the shard of the LOM-ack map\<close>

text \<open>The opaque bytes a \<^verbatim>\<open>regularAck\<close> packs into: its two fields.\<close>

datatype Opaque = Pack int64 string

text \<open>
  The fields of \<^verbatim>\<open>Manager\<close> that the functions below read and write. The abort flag of
  the running xaction \<^verbatim>\<open>reb.xreb\<close> is \<open>xreb_aborted\<close>; \<open>freed\<close> lists the buffers given
  back to the small-object memory manager; \<open>rlocks\<close> counts the shared locks held per
  object.
\<close>

record Manager =
  snode :: string
  globRebID :: int64
  laterx :: bool
  inQueue :: int64
  lomAcks :: "nat \<Rightarrow> (string \<rightharpoonup> LOM)"
  xreb_aborted :: bool
  freed :: "Opaque list"
  rlocks :: "string \<Rightarrow> int"

text \<open>\<^verbatim>\<open>reb.xreb.Abort()\<close>: the local abort.\<close>

definition xreb_Abort :: "Manager \<Rightarrow> Manager" where
  "xreb_Abort m = m\<lparr>xreb_aborted := True\<rparr>"

subsection \<open>checkGlobStatus (a file of package reb)\<close>

text \<open>
  What a call of \<^verbatim>\<open>reb.t.Health(tsi, true, timeout)\<close> followed by
  \<^verbatim>\<open>jsoniter.Unmarshal\<close> yields: an error of the call, or a body with the \<^verbatim>\<open>Status\<close>
  decoded from it and whether decoding succeeded.
\<close>

datatype health_result = HealthErr | HealthOK Status bool

text \<open>
  The environment of one call of \<^verbatim>\<open>checkGlobStatus\<close>: the result of the first poll,
  whether \<^verbatim>\<open>AbortedAfter(sleepRetry)\<close> saw an abort, and the result of the retry.
\<close>

record poll_env =
  health1 :: health_result
  aborted_after :: bool
  health2 :: health_result

text \<open>
  \<^verbatim>\<open>checkGlobStatus\<close> calls \<^verbatim>\<open>reb.abortGlobal()\<close>, which is declared in a file of
  package \<^verbatim>\<open>reb\<close> that is not among the sources: what it does to the manager is a
  parameter of the functions below. The other abort, \<^verbatim>\<open>reb.xreb.Abort()\<close>, is the local
  one above.
\<close>

text \<open>The part of \<^verbatim>\<open>checkGlobStatus\<close> after a successful decoding.\<close>

definition checkStatus :: "(Manager \<Rightarrow> Manager) \<Rightarrow> Manager \<Rightarrow> int64 \<Rightarrow> uint32 \<Rightarrow> Status \<Rightarrow> Manager \<times> Status option \<times> bool" where
  "checkStatus abortGlobal m ver desiredStage status =
     (let tver = SmapVersion status; rver = RebVersion status in
      if ver <s tver \<or> ver <s rver then (abortGlobal m, Some status, False)
      else if globRebID m <s GlobRebID status then (abortGlobal m, Some status, False)
      else if tver <s ver \<or> rver <s ver then (m, Some status, False)
      else if GlobRebID status <s globRebID m then (m, Some status, False)
      else if GlobRebID status = globRebID m \<and> Aborted status then (xreb_Abort m, Some status, False)
      else if desiredStage \<le> Stage status then (m, Some status, True)
      else (m, Some status, False))"

definition checkReply :: "(Manager \<Rightarrow> Manager) \<Rightarrow> Manager \<Rightarrow> int64 \<Rightarrow> uint32 \<Rightarrow> health_result \<Rightarrow> Manager \<times> Status option \<times> bool" where
  "checkReply abortGlobal m ver desiredStage r =
     (case r of
        HealthErr \<Rightarrow> (abortGlobal m, None, False)
      | HealthOK status decoded \<Rightarrow>
          if \<not> decoded then (abortGlobal m, Some status, False)
          else checkStatus abortGlobal m ver desiredStage status)"

definition checkGlobStatus :: "(Manager \<Rightarrow> Manager) \<Rightarrow> Manager \<Rightarrow> int64 \<Rightarrow> uint32 \<Rightarrow> poll_env \<Rightarrow> Manager \<times> Status option \<times> bool" where
  "checkGlobStatus abortGlobal m ver desiredStage env =
     (case health1 env of
        HealthErr \<Rightarrow>
          if aborted_after env then (m, None, False)
          else checkReply abortGlobal m ver desiredStage (health2 env)
      | r \<Rightarrow> checkReply abortGlobal m ver desiredStage r)"

subsection \<open>globalJogger.send (reb/global.go)\<close>

text \<open>
  The outcomes of the calls \<^verbatim>\<open>send\<close> makes outside the manager: \<^verbatim>\<open>lom.Load\<close>,
  \<^verbatim>\<open>lom.IsCopy\<close>, \<^verbatim>\<open>lom.CksumComputeIfMissing\<close>, \<^verbatim>\<open>cmn.NewFileHandle\<close> and
  \<^verbatim>\<open>streams.Send\<close>. An error is its message.
\<close>

record send_env =
  load_err :: "string option"
  is_copy :: bool
  cksum_err :: "string option"
  open_err :: "string option"
  send_err :: "string option"

definition lom_Lock :: "LOM \<Rightarrow> Manager \<Rightarrow> Manager" where
  "lom_Lock lom m = m\<lparr>rlocks := (rlocks m)(Uname lom := rlocks m (Uname lom) + 1)\<rparr>"

definition lom_Unlock :: "LOM \<Rightarrow> Manager \<Rightarrow> Manager" where
  "lom_Unlock lom m = m\<lparr>rlocks := (rlocks m)(Uname lom := rlocks m (Uname lom) - 1)\<rparr>"

text \<open>The deferred function of \<^verbatim>\<open>send\<close>: unlock the object when an error is returned.\<close>

definition send_return :: "LOM \<Rightarrow> string option \<Rightarrow> Manager \<Rightarrow> string option \<times> Manager" where
  "send_return lom err m = (case err of None \<Rightarrow> (None, m) | Some e \<Rightarrow> (Some e, lom_Unlock lom m))"

definition ack_insert :: "LOM \<Rightarrow> Manager \<Rightarrow> Manager" where
  "ack_insert lom m =
     m\<lparr>lomAcks := (lomAcks m)(HkeyIdx lom := (lomAcks m (HkeyIdx lom))(Uname lom \<mapsto> lom))\<rparr>"

definition ack_delete :: "LOM \<Rightarrow> Manager \<Rightarrow> Manager" where
  "ack_delete lom m =
     m\<lparr>lomAcks := (lomAcks m)(HkeyIdx lom := (lomAcks m (HkeyIdx lom))(Uname lom := None))\<rparr>"

definition send :: "LOM \<Rightarrow> string \<Rightarrow> bool \<Rightarrow> send_env \<Rightarrow> Manager \<Rightarrow> string option \<times> Manager" where
  "send lom tsi addAck env m0 =
     (let m = lom_Lock lom m0 in
      if load_err env \<noteq> None then send_return lom (load_err env) m
      else if is_copy env then send_return lom None (lom_Unlock lom m)
      else if cksum_err env \<noteq> None then send_return lom (cksum_err env) m
      else if open_err env \<noteq> None then send_return lom (open_err env) m
      else
        let m = (if addAck then ack_insert lom m else m);
            opaque = Pack (globRebID m) (snode m);
            m = m\<lparr>inQueue := inQueue m + 1\<rparr>
        in case send_err env of
             Some e \<Rightarrow>
               let m = m\<lparr>inQueue := inQueue m - 1\<rparr>;
                   m = (if addAck then ack_delete lom m else m);
                   m = m\<lparr>freed := opaque # freed m\<rparr>
               in send_return lom (Some e) m
           | None \<Rightarrow> send_return lom None (m\<lparr>laterx := True\<rparr>))"

subsection \<open>Wait loops and what they observe\<close>

text \<open>
  A wait loop sleeps between probes while other goroutines change what it reads. Each
  turn of such a loop consumes one observation of its environment; a loop that has used
  up the observations it was given is still waiting (\<open>Pending\<close>). A failed assertion or a
  division by zero is \<open>Panic\<close>.
\<close>

datatype 'a outcome = Panic | Pending | Returned 'a

text \<open>Go's \<^verbatim>\<open>/\<close> on \<^verbatim>\<open>int64\<close>: it truncates towards zero (the divisor is not zero).\<close>

definition div64 :: "int64 \<Rightarrow> int64 \<Rightarrow> int64" where
  "div64 a b = word_of_int (sint a sdiv sint b)"

subsection \<open>waitQuiesce (reb/global.go)\<close>

text \<open>
  One turn of the loop of \<^verbatim>\<open>waitQuiesce\<close> observes: what the callback returns, whether
  \<^verbatim>\<open>AbortedAfter(sleep)\<close> saw an abort, and whether a receiver stored \<^verbatim>\<open>true\<close> into
  \<^verbatim>\<open>laterx\<close> between this turn's compare-and-swap and the next one's.
\<close>

record quiesce_obs =
  cb_true :: bool
  aborted_after_sleep :: bool
  rx_during_sleep :: bool

text \<open>
  The loop. \<^verbatim>\<open>laterx.CAS(true, false)\<close> fails exactly when \<^verbatim>\<open>laterx\<close> is false, and
  leaves it false either way. The counter \<^verbatim>\<open>quiescent\<close> stays between 0 and
  \<^verbatim>\<open>maxQuiet\<close>, so its increment never wraps and it is an \<open>int\<close> here. The result is
  the returned \<^verbatim>\<open>aborted\<close> and, for each turn made, whether it was quiet.
\<close>

fun waitQuiesce_loop :: "int \<Rightarrow> bool \<Rightarrow> int \<Rightarrow> bool \<Rightarrow> quiesce_obs list \<Rightarrow> (bool \<times> bool list) outcome" where
  "waitQuiesce_loop maxQuiet has_cb quiescent lx [] =
     (if quiescent < maxQuiet then Pending else Returned (False, []))"
| "waitQuiesce_loop maxQuiet has_cb quiescent lx (ob # obs) =
     (if \<not> quiescent < maxQuiet then Returned (False, [])
      else
        let quiet = \<not> lx;
            quiescent = (if quiet then quiescent + 1 else 0)
        in if has_cb \<and> cb_true ob then Returned (False, [quiet])
           else if aborted_after_sleep ob then Returned (True, [quiet])
           else (case waitQuiesce_loop maxQuiet has_cb quiescent (rx_during_sleep ob) obs of
                   Returned (aborted, turns) \<Rightarrow> Returned (aborted, quiet # turns)
                 | r \<Rightarrow> r))"

definition waitQuiesce :: "Manager \<Rightarrow> Config \<Rightarrow> Duration \<Rightarrow> bool \<Rightarrow> quiesce_obs list \<Rightarrow> (bool \<times> bool list) outcome" where
  "waitQuiesce m config maxWait has_cb obs =
     (if \<not> 0 <s maxWait then Panic
      else
        let sleep = CplaneOperation (Timeout config) in
        if sleep = 0 then Panic
        else
          let maxQuiet = sint (div64 maxWait sleep + 1) in
          if xreb_aborted m then Returned (True, [])
          else waitQuiesce_loop maxQuiet has_cb 0 (laterx m) obs)"

subsection \<open>nodesNotInStage and waitForPushReqs (a file of package reb)\<close>







section \<open>The EC waiter registry (package reb)\<close>

text \<open>
  Modelled from the spec: \<^verbatim>\<open>ecWaiter\<close> and its \<^verbatim>\<open>lookupCreate\<close> are declared in a file
  of package \<^verbatim>\<open>reb\<close> that is not among the sources; only their ginkgo test is. The spec:
  a map from object UID to a slice-waiter record, one waiter per expected slice, and a
  counter of outstanding waiters; \<^verbatim>\<open>lookupCreate(uid, slot, mode)\<close> returns the waiter of
  \<open>(uid, slot)\<close>, creating it when there is none. The test counts one outstanding waiter
  per waiter created. A waiter handle (a \<^verbatim>\<open>*waitCT\<close>) is an address.
\<close>

type_synonym int16 = "16 word"

record waitCT =
  sliceID :: int16
  arrived :: bool

record waitObject =
  wt :: int
  cts :: "(int16 \<times> nat) list"  \<comment> \<open>slot and address of its waiter, in order of creation\<close>

record ecWaiter =
  objs :: "string \<rightharpoonup> waitObject"
  waitFor :: int64
  waiters :: "nat \<rightharpoonup> waitCT"  \<comment> \<open>the allocated waiters, by address\<close>
  next_addr :: nat

definition lookupCreate :: "ecWaiter \<Rightarrow> string \<Rightarrow> int16 \<Rightarrow> int \<Rightarrow> nat \<times> ecWaiter" where
  "lookupCreate w uid slot mode =
     (case objs w uid of
        None \<Rightarrow>
          let a = next_addr w in
          (a, w\<lparr>objs := (objs w)(uid \<mapsto> \<lparr>wt = mode, cts = [(slot, a)]\<rparr>),
                waitFor := waitFor w + 1,
                waiters := (waiters w)(a \<mapsto> \<lparr>sliceID = slot, arrived = False\<rparr>),
                next_addr := Suc a\<rparr>)
      | Some wo \<Rightarrow>
          (case map_of (cts wo) slot of
             Some a \<Rightarrow> (a, w)
           | None \<Rightarrow>
               let a = next_addr w in
               (a, w\<lparr>objs := (objs w)(uid \<mapsto> wo\<lparr>cts := cts wo @ [(slot, a)]\<rparr>),
                     waitFor := waitFor w + 1,
                     waiters := (waiters w)(a \<mapsto> \<lparr>sliceID = slot, arrived = False\<rparr>),
                     next_addr := Suc a\<rparr>)))"

section \<open>The stream collector (transport/collect.go)\<close>

text \<open>
  The state of a stream's session, a frame of a stream's work queue (its name and the
  \<^verbatim>\<open>Size\<close> attribute of its header), and the fields of a \<^verbatim>\<open>Stream\<close> that the collector
  reads and writes. \<^verbatim>\<open>Stream\<close> is declared in a file of package \<^verbatim>\<open>transport\<close> that is
  not among the sources; the fields are those \<^verbatim>\<open>collect.go\<close> names: \<^verbatim>\<open>time.ticks\<close>,
  \<^verbatim>\<open>time.index\<close>, \<^verbatim>\<open>time.idleOut\<close>, \<^verbatim>\<open>time.posted\<close>, \<^verbatim>\<open>workCh\<close>, \<^verbatim>\<open>sessST\<close>,
  \<^verbatim>\<open>Terminated()\<close> and \<^verbatim>\<open>term.err\<close>. The heap index is only ever assigned a length or a
  position of the heap, so it is a natural number.
\<close>

datatype session_state = inactive | active

record obj =
  ObjName :: string
  ObjSize :: int64

record Stream =
  ticks :: int
  index :: nat
  idleOut :: Duration
  posted :: int64
  workCh :: "obj list"
  workCh_closed :: bool
  sessST :: session_state
  terminated :: bool
  term_err :: "string option"

text \<open>
  \<^verbatim>\<open>reasonUnknown\<close> is declared in a file that is not among the sources. Modelled from the
  spec: the error ``unknown reason''.
\<close>

definition reasonUnknown :: string where
  "reasonUnknown = ''unknown reason''"

text \<open>
  What the collector does to a stream's queue and frames, in order: closing the work
  channel, and \<^verbatim>\<open>objDone(&obj, err)\<close>, the completion callback of a frame with an error.
\<close>

datatype event = ChanClosed string | ObjDone string obj string

text \<open>
  The collector. The map \<^verbatim>\<open>gc.streams\<close> and the slice \<^verbatim>\<open>gc.heap\<close> hold pointers to the
  same \<^verbatim>\<open>Stream\<close> objects; a stream is addressed by its \<^verbatim>\<open>lid\<close>, the key of the map.
  \<open>mem\<close> is the memory the pointers point into, \<open>streams\<close> the keys of the map, \<open>heap\<close> the
  slice, \<open>events\<close> the log of what was done to the queues.
\<close>

record collector =
  mem :: "string \<Rightarrow> Stream"
  streams :: "string set"
  heap :: "string list"
  events :: "event list"

subsection \<open>The heap interface: Len, Less, Swap, Push, Pop\<close>

text \<open>A panic (an index out of range, a failed assertion) is \<open>None\<close>.\<close>

definition Len :: "collector \<Rightarrow> nat" where
  "Len gc = length (heap gc)"

definition Less :: "collector \<Rightarrow> nat \<Rightarrow> nat \<Rightarrow> bool option" where
  "Less gc i j =
     (if i < Len gc \<and> j < Len gc
      then Some (ticks (mem gc (heap gc ! i)) < ticks (mem gc (heap gc ! j)))
      else None)"

definition set_index :: "string \<Rightarrow> nat \<Rightarrow> collector \<Rightarrow> collector" where
  "set_index s i gc = gc\<lparr>mem := (mem gc)(s := (mem gc s)\<lparr>index := i\<rparr>)\<rparr>"

definition set_ticks :: "string \<Rightarrow> int \<Rightarrow> collector \<Rightarrow> collector" where
  "set_ticks s t gc = gc\<lparr>mem := (mem gc)(s := (mem gc s)\<lparr>ticks := t\<rparr>)\<rparr>"

definition Swap :: "collector \<Rightarrow> nat \<Rightarrow> nat \<Rightarrow> collector option" where
  "Swap gc i j =
     (if i < Len gc \<and> j < Len gc
      then
        let gc = gc\<lparr>heap := (heap gc)[i := heap gc ! j, j := heap gc ! i]\<rparr>;
            gc = set_index (heap gc ! i) i gc;
            gc = set_index (heap gc ! j) j gc
        in Some gc
      else None)"

subsection \<open>Go's container/heap: up, down, Fix, Push, Remove\<close>

text \<open>
  The standard library's \<^verbatim>\<open>container/heap\<close>, as its source has it. In \<^verbatim>\<open>up\<close> the parent
  of \<open>j\<close> is \<^verbatim>\<open>(j - 1) / 2\<close>, which is 0 for \<open>j = 0\<close> in Go (the division truncates) and
  on the naturals alike.
\<close>

function up :: "collector \<Rightarrow> nat \<Rightarrow> collector option" where
  "up gc j =
     (let i = (j - 1) div 2 in
      if i = j then Some gc
      else (case Less gc j i of
              None \<Rightarrow> None
            | Some lt \<Rightarrow>
                if \<not> lt then Some gc
                else (case Swap gc i j of None \<Rightarrow> None | Some gc' \<Rightarrow> up gc' i)))"
  by pat_completeness auto
termination
  by (relation "measure (\<lambda>(gc, j). j)") auto

declare up.simps [simp del]

text \<open>The loop of \<^verbatim>\<open>down\<close>; it returns the position \<open>i\<close> at which it stops.\<close>

function down_loop :: "collector \<Rightarrow> nat \<Rightarrow> nat \<Rightarrow> (collector \<times> nat) option" where
  "down_loop gc i n =
     (let j1 = 2 * i + 1 in
      if n \<le> j1 then Some (gc, i)
      else (case (if j1 + 1 < n then Less gc (j1 + 1) j1 else Some False) of
              None \<Rightarrow> None
            | Some right \<Rightarrow>
                let j = (if right then j1 + 1 else j1) in
                (case Less gc j i of
                   None \<Rightarrow> None
                 | Some lt \<Rightarrow>
                     if \<not> lt then Some (gc, i)
                     else (case Swap gc i j of None \<Rightarrow> None | Some gc' \<Rightarrow> down_loop gc' j n))))"
  by pat_completeness auto
termination
  by (relation "measure (\<lambda>(gc, i, n). n - i)") (auto split: if_splits)

declare down_loop.simps [simp del]

definition down :: "collector \<Rightarrow> nat \<Rightarrow> nat \<Rightarrow> (collector \<times> bool) option" where
  "down gc i0 n = (case down_loop gc i0 n of None \<Rightarrow> None | Some (gc', i) \<Rightarrow> Some (gc', i0 < i))"

definition Fix :: "collector \<Rightarrow> nat \<Rightarrow> collector option" where
  "Fix gc i =
     (case down gc i (Len gc) of
        None \<Rightarrow> None
      | Some (gc', moved) \<Rightarrow> if \<not> moved then up gc' i else Some gc')"

text \<open>\<^verbatim>\<open>gc.Push(x)\<close>, which itself calls \<^verbatim>\<open>heap.Fix\<close>, and \<^verbatim>\<open>gc.Pop()\<close>.\<close>

definition gc_Push :: "collector \<Rightarrow> string \<Rightarrow> collector option" where
  "gc_Push gc s =
     (let l = Len gc;
          gc = set_index s l gc;
          gc = gc\<lparr>heap := heap gc @ [s]\<rparr>
      in Fix gc (index (mem gc s)))"

definition gc_Pop :: "collector \<Rightarrow> (collector \<times> string) option" where
  "gc_Pop gc =
     (if heap gc = [] then None
      else Some (gc\<lparr>heap := butlast (heap gc)\<rparr>, last (heap gc)))"

definition heap_Push :: "collector \<Rightarrow> string \<Rightarrow> collector option" where
  "heap_Push gc s =
     (case gc_Push gc s of None \<Rightarrow> None | Some gc' \<Rightarrow> up gc' (Len gc' - 1))"

text \<open>
  \<^verbatim>\<open>heap.Remove(h, i)\<close>. On an empty heap \<^verbatim>\<open>n\<close> is \<open>-1\<close>, which differs from every
  index, and \<^verbatim>\<open>Swap(i, -1)\<close> panics.
\<close>

definition heap_Remove :: "collector \<Rightarrow> nat \<Rightarrow> (collector \<times> string) option" where
  "heap_Remove gc i =
     (if Len gc = 0 then None
      else
        let n = Len gc - 1 in
        if n \<noteq> i then
          (case Swap gc i n of
             None \<Rightarrow> None
           | Some gc1 \<Rightarrow>
               (case down gc1 i n of
                  None \<Rightarrow> None
                | Some (gc2, moved) \<Rightarrow>
                    if \<not> moved then (case up gc2 i of None \<Rightarrow> None | Some gc3 \<Rightarrow> gc_Pop gc3)
                    else gc_Pop gc2))
        else gc_Pop gc)"

subsection \<open>The collector's own methods\<close>

text \<open>\<^verbatim>\<open>gc.update(s, ticks)\<close>: the assertion \<^verbatim>\<open>ticks >= 0\<close> follows the assignment.\<close>

definition update :: "collector \<Rightarrow> string \<Rightarrow> int \<Rightarrow> collector option" where
  "update gc s t =
     (let gc = set_ticks s t gc in
      if \<not> 0 \<le> ticks (mem gc s) then None
      else Fix gc (index (mem gc s)))"

text \<open>
  The control events of \<^verbatim>\<open>run()\<close>: \<^verbatim>\<open>ctrl{s, true}\<close> registers a stream,
  \<^verbatim>\<open>ctrl{s, false}\<close> takes it out of the heap and leaves it in the map with one tick to
  live.
\<close>

definition ctrl_add :: "collector \<Rightarrow> string \<Rightarrow> collector option" where
  "ctrl_add gc s =
     (if s \<in> streams gc then None
      else heap_Push (gc\<lparr>streams := insert s (streams gc)\<rparr>) s)"

definition ctrl_remove :: "collector \<Rightarrow> string \<Rightarrow> collector option" where
  "ctrl_remove gc s =
     (if s \<in> streams gc
      then (case heap_Remove gc (index (mem gc s)) of
              None \<Rightarrow> None
            | Some (gc', _) \<Rightarrow> Some (set_ticks s 1 gc'))
      else Some gc)"

text \<open>
  \<^verbatim>\<open>do()\<close>, the body of its first loop for one stream of the map. Closing a channel that
  is closed already panics. An error is its message; a stream with no stored error gets
  the error made from \<^verbatim>\<open>reasonUnknown\<close>.
\<close>

definition do_terminated :: "collector \<Rightarrow> string \<Rightarrow> collector option" where
  "do_terminated gc s =
     (let gc = set_ticks s (ticks (mem gc s) - 1) gc in
      if ticks (mem gc s) \<le> 0 then
        let gc = gc\<lparr>streams := streams gc - {s}\<rparr> in
        if workCh_closed (mem gc s) then None
        else
          let gc = gc\<lparr>mem := (mem gc)(s := (mem gc s)\<lparr>workCh_closed := True\<rparr>),
                       events := events gc @ [ChanClosed s]\<rparr>;
              err = (case term_err (mem gc s) of None \<Rightarrow> reasonUnknown | Some e \<Rightarrow> e);
              gc = gc\<lparr>mem := (mem gc)(s := (mem gc s)\<lparr>term_err := Some err\<rparr>)\<rparr>;
              gc = gc\<lparr>events := events gc @ map (\<lambda>ob. ObjDone s ob err) (workCh (mem gc s)),
                       mem := (mem gc)(s := (mem gc s)\<lparr>workCh := []\<rparr>)\<rparr>
          in Some gc
      else Some gc)"

definition do_first :: "collector \<Rightarrow> string \<Rightarrow> collector option" where
  "do_first gc s =
     (if terminated (mem gc s) then do_terminated gc s
      else if sessST (mem gc s) = active then update gc s (ticks (mem gc s) - 1)
      else Some gc)"

text \<open>
  The body of the second loop. \<^verbatim>\<open>tickUnit\<close> and \<^verbatim>\<open>tickMarker\<close> are constants declared in
  a file that is not among the sources and are parameters here (\<^verbatim>\<open>tickUnit\<close> is not
  zero: Go rejects a division by a constant zero). Sending on a closed channel panics.
\<close>

definition do_second :: "Duration \<Rightarrow> int64 \<Rightarrow> collector \<Rightarrow> string \<Rightarrow> collector option" where
  "do_second tickUnit tickMarker gc s =
     (if 0 < ticks (mem gc s) then Some gc
      else
        (case update gc s (sint (div64 (idleOut (mem gc s)) tickUnit)) of
           None \<Rightarrow> None
         | Some gc \<Rightarrow>
             let old = posted (mem gc s);
                 gc = gc\<lparr>mem := (mem gc)(s := (mem gc s)\<lparr>posted := 0\<rparr>)\<rparr>
             in if 0 <s old then Some gc
                else if workCh (mem gc s) = [] \<and> sessST (mem gc s) = active then
                  let gc = gc\<lparr>mem := (mem gc)(s := (mem gc s)\<lparr>sessST := inactive\<rparr>)\<rparr> in
                  if workCh_closed (mem gc s) then None
                  else Some (gc\<lparr>mem := (mem gc)(s := (mem gc s)
                                \<lparr>workCh := workCh (mem gc s) @ [\<lparr>ObjName = [], ObjSize = tickMarker\<rparr>]\<rparr>)\<rparr>)
                else Some gc))"

text \<open>
  A \<^verbatim>\<open>range\<close> over the map visits its keys in an order Go does not fix: the order is a
  list given to the loop, and a key that is not in the map when its turn comes is passed
  over.
\<close>

fun range_streams :: "(collector \<Rightarrow> string \<Rightarrow> collector option) \<Rightarrow> collector \<Rightarrow> string list \<Rightarrow> collector option" where
  "range_streams body gc [] = Some gc"
| "range_streams body gc (s # order) =
     (if s \<in> streams gc
      then (case body gc s of None \<Rightarrow> None | Some gc' \<Rightarrow> range_streams body gc' order)
      else range_streams body gc order)"

definition do :: "Duration \<Rightarrow> int64 \<Rightarrow> collector \<Rightarrow> string list \<Rightarrow> string list \<Rightarrow> collector option" where
  "do tickUnit tickMarker gc order1 order2 =
     (case range_streams do_first gc order1 of
        None \<Rightarrow> None
      | Some gc' \<Rightarrow> range_streams (do_second tickUnit tickMarker) gc' order2)"

section \<open>Notions used in the statements\<close>

subsection \<open>Runs of observations\<close>

text \<open>
  \<open>quiet_run N turns\<close>: the last \<open>N\<close> of the recorded \<open>turns\<close> were all quiet.
\<close>

definition quiet_run :: "nat \<Rightarrow> bool list \<Rightarrow> bool" where
  "quiet_run N turns = (N \<le> length turns \<and> drop (length turns - N) turns = replicate N True)"

text \<open>
  The turns of \<^verbatim>\<open>waitQuiesce\<close>. The first turn is quiet when \<^verbatim>\<open>laterx\<close> is not set on
  entry, a later turn when no receiver set it during the sleep of the turn before;
  \<open>quiet_turns lx obs k\<close> lists this for the first \<open>k\<close> turns. A turn ends the wait when
  the callback returns true at it, when its sleep sees the abort, or when it is the last
  of \<open>N\<close> quiet turns in a row; \<open>first_end\<close> is the first such turn. \<open>ends_from\<close> is the
  same for a loop that starts with \<open>q\<close> quiet turns already counted.
\<close>

definition quiet_turns :: "bool \<Rightarrow> quiesce_obs list \<Rightarrow> nat \<Rightarrow> bool list" where
  "quiet_turns lx obs k = take k (map Not (lx # map rx_during_sleep obs))"

definition turn_ends :: "nat \<Rightarrow> bool \<Rightarrow> bool \<Rightarrow> quiesce_obs list \<Rightarrow> nat \<Rightarrow> bool" where
  "turn_ends N has_cb lx obs k =
     ((has_cb \<and> cb_true (obs ! k)) \<or> aborted_after_sleep (obs ! k)
      \<or> quiet_run N (quiet_turns lx obs (Suc k)))"

definition first_end :: "nat \<Rightarrow> bool \<Rightarrow> bool \<Rightarrow> quiesce_obs list \<Rightarrow> nat \<Rightarrow> bool" where
  "first_end N has_cb lx obs k =
     (k < length obs \<and> turn_ends N has_cb lx obs k \<and> (\<forall>j<k. \<not> turn_ends N has_cb lx obs j))"

definition ends_from :: "nat \<Rightarrow> bool \<Rightarrow> nat \<Rightarrow> bool \<Rightarrow> quiesce_obs list \<Rightarrow> nat \<Rightarrow> bool" where
  "ends_from N has_cb q lx obs k =
     ((has_cb \<and> cb_true (obs ! k)) \<or> aborted_after_sleep (obs ! k)
      \<or> quiet_run N (replicate q True @ quiet_turns lx obs (Suc k)))"


subsection \<open>Concrete inputs\<close>

text \<open>
  The default configuration of the spec (retry time 2 minutes, quiesce 20 seconds, control
  plane operation 2 seconds), a manager of target \<open>t1\<close> in run 10, and cluster maps of
  three and five targets with observations of their stage registry.
\<close>

definition cfg0 :: Config where
  "cfg0 = \<lparr>Rebalance = \<lparr>DestRetryTime = 120000000000, Quiesce = 20000000000\<rparr>,
           Timeout = \<lparr>CplaneOperation = 2000000000\<rparr>\<rparr>"

definition m0 :: Manager where
  "m0 = \<lparr>snode = ''t1'', globRebID = 10, laterx = False, inQueue = 0, lomAcks = (\<lambda>_. Map.empty),
          xreb_aborted = False, freed = [], rlocks = (\<lambda>_. 0)\<rparr>"

definition quiet_obs :: quiesce_obs where
  "quiet_obs = \<lparr>cb_true = False, aborted_after_sleep = False, rx_during_sleep = False\<rparr>"





text \<open>
  A configuration whose \<^verbatim>\<open>DestRetryTime\<close> is the largest \<^verbatim>\<open>int64\<close>, and a cluster map
  of ten targets.
\<close>

definition cfg_far :: Config where
  "cfg_far = \<lparr>Rebalance = \<lparr>DestRetryTime = 9223372036854775807, Quiesce = 20000000000\<rparr>,
              Timeout = \<lparr>CplaneOperation = 2000000000\<rparr>\<rparr>"

definition smap10 :: Smap where
  "smap10 = \<lparr>Version = 7, Tmap = [''t1'', ''t2'', ''t3'', ''t4'', ''t5'', ''t6'', ''t7'', ''t8'', ''t9'', ''t10'']\<rparr>"



subsection \<open>What a heap operation leaves alone\<close>

text \<open>
  A stream without its heap index, and the relation between two states of the collector
  that differ only in heap indices and in the order of the heap.
\<close>

definition unindexed :: "Stream \<Rightarrow> Stream" where
  "unindexed s = s\<lparr>index := 0\<rparr>"

definition heap_frame :: "collector \<Rightarrow> collector \<Rightarrow> bool" where
  "heap_frame gc gc' =
     (streams gc' = streams gc \<and> events gc' = events gc
      \<and> (\<lambda>l. unindexed (mem gc' l)) = (\<lambda>l. unindexed (mem gc l))
      \<and> length (heap gc') = length (heap gc) \<and> set (heap gc') = set (heap gc))"

text \<open>The child that \<^verbatim>\<open>down\<close> compares with position \<open>i\<close>: the smaller one, the left one on a tie.\<close>

definition down_child :: "collector \<Rightarrow> nat \<Rightarrow> nat \<Rightarrow> nat option" where
  "down_child gc i n =
     (case (if 2 * i + 2 < n then Less gc (2 * i + 2) (2 * i + 1) else Some False) of
        None \<Rightarrow> None
      | Some right \<Rightarrow> Some (if right then 2 * i + 2 else 2 * i + 1))"

text \<open>
  What the collector holds about one stream: the stream without its heap index, whether it
  is in the map, and the events of its queue.
\<close>

fun event_of :: "string \<Rightarrow> event \<Rightarrow> bool" where
  "event_of s (ChanClosed l) = (l = s)"
| "event_of s (ObjDone l ob err) = (l = s)"

definition events_of :: "string \<Rightarrow> collector \<Rightarrow> event list" where
  "events_of s gc = filter (event_of s) (events gc)"

definition stream_view :: "collector \<Rightarrow> string \<Rightarrow> Stream \<times> bool \<times> event list" where
  "stream_view gc s = (unindexed (mem gc s), s \<in> streams gc, events_of s gc)"

text \<open>The error a terminated stream's frames complete with.\<close>

definition stored_error :: "Stream \<Rightarrow> string" where
  "stored_error x = (case term_err x of None \<Rightarrow> reasonUnknown | Some e \<Rightarrow> e)"

text \<open>What the second loop of \<^verbatim>\<open>do()\<close> makes of a stream whose ticks are used up.\<close>

definition idle_result :: "Duration \<Rightarrow> int64 \<Rightarrow> Stream \<Rightarrow> Stream" where
  "idle_result tickUnit tickMarker x =
     (let x0 = x\<lparr>ticks := sint (div64 (idleOut x) tickUnit), posted := 0\<rparr> in
      if 0 <s posted x then x0
      else if workCh x = [] \<and> sessST x = active
        then x0\<lparr>sessST := inactive, workCh := [\<lparr>ObjName = [], ObjSize = tickMarker\<rparr>]\<rparr>
      else x0)"

text \<open>
  A collector with one idle stream in the heap, and one with a terminated stream that
  was taken out of the heap with a frame left in its queue.
\<close>

definition frame1 :: obj where
  "frame1 = \<lparr>ObjName = ''obj1'', ObjSize = 1\<rparr>"

definition stream_idle :: Stream where
  "stream_idle = \<lparr>ticks = 1, index = 0, idleOut = 3000000000, posted = 0, workCh = [],
     workCh_closed = False, sessST = active, terminated = False, term_err = None\<rparr>"

definition stream_dead :: Stream where
  "stream_dead = \<lparr>ticks = 1, index = 0, idleOut = 3000000000, posted = 0, workCh = [frame1],
     workCh_closed = False, sessST = active, terminated = True, term_err = None\<rparr>"

definition gc_idle :: collector where
  "gc_idle = \<lparr>mem = (\<lambda>_. stream_idle), streams = {''s1''}, heap = [''s1''], events = []\<rparr>"

definition gc_dead :: collector where
  "gc_dead = \<lparr>mem = (\<lambda>_. stream_dead), streams = {''s1''}, heap = [], events = []\<rparr>"

subsection \<open>Heaps of keys\<close>

text \<open>
  The keys of the heap are the ticks of its streams, in the order of the slice. A prefix
  of length \<open>n\<close> of a list of keys is a min-heap when no key is below the key of its
  parent; the three weaker notions say where a single position may be out of order.
\<close>

definition keys :: "collector \<Rightarrow> int list" where
  "keys gc = map (\<lambda>s. ticks (mem gc s)) (heap gc)"

definition is_heap :: "int list \<Rightarrow> nat \<Rightarrow> bool" where
  "is_heap ks n = (\<forall>k<n. ks ! ((k - 1) div 2) \<le> ks ! k)"

definition except_inv :: "int list \<Rightarrow> nat \<Rightarrow> nat \<Rightarrow> bool" where
  "except_inv ks i n =
     ((\<forall>k<n. k \<noteq> i \<and> (k - 1) div 2 \<noteq> i \<longrightarrow> ks ! ((k - 1) div 2) \<le> ks ! k)
      \<and> (\<forall>c<n. (c - 1) div 2 = i \<longrightarrow> i = 0 \<or> ks ! ((i - 1) div 2) \<le> ks ! c))"

definition up_inv :: "int list \<Rightarrow> nat \<Rightarrow> nat \<Rightarrow> bool" where
  "up_inv ks j n =
     ((\<forall>k<n. k \<noteq> j \<longrightarrow> ks ! ((k - 1) div 2) \<le> ks ! k)
      \<and> (\<forall>c<n. (c - 1) div 2 = j \<longrightarrow> ks ! ((j - 1) div 2) \<le> ks ! c))"

definition down_inv :: "int list \<Rightarrow> nat \<Rightarrow> nat \<Rightarrow> bool" where
  "down_inv ks i n =
     ((\<forall>k<n. (k - 1) div 2 \<noteq> i \<longrightarrow> ks ! ((k - 1) div 2) \<le> ks ! k)
      \<and> (\<forall>c<n. (c - 1) div 2 = i \<longrightarrow> i = 0 \<or> ks ! ((i - 1) div 2) \<le> ks ! c))"

definition heap_ord :: "collector \<Rightarrow> bool" where
  "heap_ord gc = is_heap (keys gc) (length (heap gc))"

definition index_inv :: "collector \<Rightarrow> bool" where
  "index_inv gc = (\<forall>i < length (heap gc). index (mem gc (heap gc ! i)) = i)"

subsection \<open>The events of the collector's loop\<close>

text \<open>
  One turn of the \<^verbatim>\<open>select\<close> loop of \<^verbatim>\<open>run()\<close>: a control message that adds or removes a
  stream, or a tick (with the two orders in which \<^verbatim>\<open>do()\<close> ranges over the map).
\<close>

datatype gc_event = Add string | Remove string | Tick "string list" "string list"

fun run_step :: "Duration \<Rightarrow> int64 \<Rightarrow> collector \<Rightarrow> gc_event \<Rightarrow> collector option" where
  "run_step tickUnit tickMarker gc (Add s) = ctrl_add gc s"
| "run_step tickUnit tickMarker gc (Remove s) = ctrl_remove gc s"
| "run_step tickUnit tickMarker gc (Tick order1 order2) = do tickUnit tickMarker gc order1 order2"

fun run :: "Duration \<Rightarrow> int64 \<Rightarrow> collector \<Rightarrow> gc_event list \<Rightarrow> collector option" where
  "run tickUnit tickMarker gc [] = Some gc"
| "run tickUnit tickMarker gc (ev # evs) =
     (case run_step tickUnit tickMarker gc ev of
        None \<Rightarrow> None
      | Some gc' \<Rightarrow> run tickUnit tickMarker gc' evs)"

text \<open>
  The heap array sorted by ticks, as the claim has it; no terminated stream of the map
  still in the heap; a stream that is added is not in the heap yet.
\<close>

definition heap_sorted :: "collector \<Rightarrow> bool" where
  "heap_sorted gc = sorted (keys gc)"

definition dead_out :: "collector \<Rightarrow> bool" where
  "dead_out gc = (\<forall>s \<in> streams gc. terminated (mem gc s) \<longrightarrow> s \<notin> set (heap gc))"

fun event_fresh :: "collector \<Rightarrow> gc_event \<Rightarrow> bool" where
  "event_fresh gc (Add s) = (s \<notin> set (heap gc))"
| "event_fresh gc ev = True"

fun event_dead_out :: "collector \<Rightarrow> gc_event \<Rightarrow> bool" where
  "event_dead_out gc (Tick order1 order2) = dead_out gc"
| "event_dead_out gc ev = True"

text \<open>What a tick keeps when it starts with no terminated stream in the heap.\<close>

definition tick_inv :: "collector \<Rightarrow> bool" where
  "tick_inv gc = (index_inv gc \<and> heap_ord gc \<and> dead_out gc)"

text \<open>
  A collector with two streams of 1 and 3 ticks in its heap, and a third stream, of 2
  ticks, that is not registered yet.
\<close>

definition gc_ab :: collector where
  "gc_ab = \<lparr>mem = (\<lambda>_. stream_idle)(''a'' := stream_idle\<lparr>ticks := 1, index := 0\<rparr>,
                 ''b'' := stream_idle\<lparr>ticks := 3, index := 1\<rparr>, ''c'' := stream_idle\<lparr>ticks := 2\<rparr>),
            streams = {''a'', ''b''}, heap = [''a'', ''b''], events = []\<rparr>"

text \<open>
  Three streams with 2, 4 and 3 ticks to live, none registered yet. And a collector with
  two streams in the map and in the heap: an inactive one, and one that has terminated
  and whose removal message the collector has not received yet.
\<close>

definition gc_243 :: collector where
  "gc_243 = \<lparr>mem = (\<lambda>_. stream_idle)(''a'' := stream_idle\<lparr>ticks := 2\<rparr>,
                 ''b'' := stream_idle\<lparr>ticks := 4\<rparr>, ''c'' := stream_idle\<lparr>ticks := 3\<rparr>),
             streams = {}, heap = [], events = []\<rparr>"

definition gc_late :: collector where
  "gc_late = \<lparr>mem = (\<lambda>_. stream_idle)(''a'' := stream_idle\<lparr>ticks := 2, index := 0, sessST := inactive\<rparr>,
                 ''b'' := stream_dead\<lparr>ticks := 2, index := 1\<rparr>),
              streams = {''a'', ''b''}, heap = [''a'', ''b''], events = []\<rparr>"

subsection \<open>A collector that is ready for a tick\<close>

text \<open>
  What \<^verbatim>\<open>do()\<close> relies on for a stream of the map: its work channel is open, it is in
  the heap unless it is terminated, and its idle timeout is not negative; and, before the
  first loop reaches it, an active stream has at least one tick left.
\<close>

definition stream_ready :: "Duration \<Rightarrow> collector \<Rightarrow> string \<Rightarrow> bool" where
  "stream_ready tickUnit gc s =
     (\<not> workCh_closed (mem gc s)
      \<and> (\<not> terminated (mem gc s) \<longrightarrow> s \<in> set (heap gc))
      \<and> 0 \<le> sint (div64 (idleOut (mem gc s)) tickUnit))"

definition stream_fresh :: "collector \<Rightarrow> string \<Rightarrow> bool" where
  "stream_fresh gc s =
     (if terminated (mem gc s) then True
      else if sessST (mem gc s) = active then 1 \<le> ticks (mem gc s) else True)"

definition stream_ticked :: "collector \<Rightarrow> string \<Rightarrow> bool" where
  "stream_ticked gc s = (if terminated (mem gc s) then 0 < ticks (mem gc s) else True)"

definition first_inv :: "Duration \<Rightarrow> string list \<Rightarrow> collector \<Rightarrow> bool" where
  "first_inv tickUnit rest gc =
     (index_inv gc
      \<and> (\<forall>s \<in> streams gc. stream_ready tickUnit gc s
            \<and> (if s \<in> set rest then stream_fresh gc s else stream_ticked gc s)))"

definition second_inv :: "Duration \<Rightarrow> collector \<Rightarrow> bool" where
  "second_inv tickUnit gc =
     (index_inv gc \<and> (\<forall>s \<in> streams gc. stream_ready tickUnit gc s \<and> stream_ticked gc s))"

section \<open>Theorems\<close>

subsection \<open>Reading a 64-bit word as a number\<close>

lemma sint_int64_in_range:
  assumes "- (2 ^ 63) \<le> x" and "x < 2 ^ 63"
  shows "sint (word_of_int x :: int64) = x"
proof -
  have "sint (word_of_int x :: int64) = signed_take_bit 63 x"
    by (simp only: sint_sbintrunc') simp
  also have "\<dots> = x"
    using assms by (intro signed_take_bit_int_eq_self) simp_all
  finally show ?thesis .
qed

subsection \<open>checkGlobStatus: which abort a poll takes\<close>

text \<open>
  A poll that yields a decoded status (at the first attempt, or at the retry after a
  failed first attempt and no abort during the pause) of a peer with a newer Smap version,
  rebalance version or \<^verbatim>\<open>globRebID\<close> hands the manager to \<^verbatim>\<open>abortGlobal\<close> and returns
  not-ok; what becomes of the run and of the other targets is what \<^verbatim>\<open>abortGlobal\<close>, the
  parameter, does. A peer that is neither newer nor older and reports the run aborted gets
  the local \<^verbatim>\<open>Abort\<close>.
\<close>

lemma checkGlobStatus_newer_epoch:
  assumes "health1 env = HealthOK status True
           \<or> (health1 env = HealthErr \<and> \<not> aborted_after env \<and> health2 env = HealthOK status True)"
    and "ver <s SmapVersion status \<or> ver <s RebVersion status \<or> globRebID m <s GlobRebID status"
  shows "checkGlobStatus abortGlobal m ver desiredStage env = (abortGlobal m, Some status, False)"
proof -
  have "checkStatus abortGlobal m ver desiredStage status = (abortGlobal m, Some status, False)"
    using assms(2) by (auto simp: checkStatus_def Let_def)
  then show ?thesis
    using assms(1) by (auto simp: checkGlobStatus_def checkReply_def)
qed

lemma checkGlobStatus_same_run_aborted:
  assumes "health1 env = HealthOK status True
           \<or> (health1 env = HealthErr \<and> \<not> aborted_after env \<and> health2 env = HealthOK status True)"
    and "SmapVersion status = ver" and "RebVersion status = ver"
    and "GlobRebID status = globRebID m" and "Aborted status"
  shows "checkGlobStatus abortGlobal m ver desiredStage env = (xreb_Abort m, Some status, False)"
proof -
  have "checkStatus abortGlobal m ver desiredStage status = (xreb_Abort m, Some status, False)"
    using assms(2-5) by (auto simp: checkStatus_def Let_def)
  then show ?thesis
    using assms(1) by (auto simp: checkGlobStatus_def checkReply_def)
qed

subsection \<open>C10: a failed send leaves no pending ack\<close>

text \<open>
  C10. When \<^verbatim>\<open>send\<close> is called with \<^verbatim>\<open>addAck\<close> and gets as far as transmitting, and
  the stream's \<^verbatim>\<open>Send\<close> returns an error, then \<^verbatim>\<open>send\<close> returns that error and in the
  state it leaves the shard of the LOM-ack map has no entry for the object's uname, the
  in-queue counter is back at its value before the call, the opaque ack bytes are freed and
  the object's lock is released.
\<close>

theorem send_failure_removes_ack:
  assumes "load_err env = None" and "\<not> is_copy env" and "cksum_err env = None"
    and "open_err env = None" and "send_err env = Some e"
  shows "fst (send lom tsi True env m) = Some e
         \<and> lomAcks (snd (send lom tsi True env m)) (HkeyIdx lom) (Uname lom) = None
         \<and> inQueue (snd (send lom tsi True env m)) = inQueue m
         \<and> Pack (globRebID m) (snode m) \<in> set (freed (snd (send lom tsi True env m)))
         \<and> rlocks (snd (send lom tsi True env m)) (Uname lom) = rlocks m (Uname lom)"
  using assms
  by (simp add: send_def Let_def send_return_def lom_Lock_def lom_Unlock_def ack_insert_def
      ack_delete_def)

theorem send_failure_removes_ack_witness:
  "lomAcks (snd (send \<lparr>Uname = ''ais/bck1/obj1'', FQN = ''/mp1/bck1/obj1'', Size = 1, HkeyIdx = 3\<rparr> ''t2'' True
       \<lparr>load_err = None, is_copy = False, cksum_err = None, open_err = None, send_err = Some ''terminated''\<rparr>
       \<lparr>snode = ''t1'', globRebID = 10, laterx = False, inQueue = 0, lomAcks = (\<lambda>_. Map.empty),
         xreb_aborted = False, freed = [], rlocks = (\<lambda>_. 0)\<rparr>)) 3 ''ais/bck1/obj1'' = None"
  using send_failure_removes_ack
    [of "\<lparr>load_err = None, is_copy = False, cksum_err = None, open_err = None, send_err = Some ''terminated''\<rparr>"
        "''terminated''"
        "\<lparr>Uname = ''ais/bck1/obj1'', FQN = ''/mp1/bck1/obj1'', Size = 1, HkeyIdx = 3\<rparr>" "''t2''"
        "\<lparr>snode = ''t1'', globRebID = 10, laterx = False, inQueue = 0, lomAcks = (\<lambda>_. Map.empty),
          xreb_aborted = False, freed = [], rlocks = (\<lambda>_. 0)\<rparr>"]
  by simp

subsection \<open>C2: waitQuiesce\<close>

lemma streak_take: "N \<le> length (takeWhile id R) \<longleftrightarrow> N \<le> length R \<and> take N R = replicate N True"
proof (induction R arbitrary: N)
  case Nil
  then show ?case by auto
next
  case (Cons x R)
  show ?case
  proof (cases N)
    case 0
    then show ?thesis by simp
  next
    case (Suc n)
    with Cons.IH [of n] show ?thesis by (cases x) auto
  qed
qed

lemma quiet_run_streak: "quiet_run N L \<longleftrightarrow> N \<le> length (takeWhile id (rev L))"
proof (cases "N \<le> length L")
  case False
  have "length (takeWhile id (rev L)) \<le> length (rev L)" by (rule length_takeWhile_le)
  with False show ?thesis by (simp add: quiet_run_def)
next
  case True
  have "drop (length L - N) L = rev (take N (rev L))"
    using True by (simp add: take_rev)
  then have "drop (length L - N) L = replicate N True \<longleftrightarrow> take N (rev L) = replicate N True"
    by (simp add: rev_swap)
  with True show ?thesis by (simp add: quiet_run_def streak_take)
qed

lemma quiet_run_first: "quiet_run N (replicate q True @ [b]) \<longleftrightarrow> N = 0 \<or> (b \<and> N \<le> Suc q)"
  by (cases b) (auto simp: quiet_run_streak takeWhile_replicate)

lemma quiet_run_reset: "quiet_run N (pre @ False # X) \<longleftrightarrow> quiet_run N X"
  by (simp add: quiet_run_streak takeWhile_tail)

lemma quiet_turns_Cons: "quiet_turns lx (ob # obs) (Suc (Suc j)) = (\<not> lx) # quiet_turns (rx_during_sleep ob) obs (Suc j)"
  by (simp add: quiet_turns_def)

lemma quiet_turns_one: "quiet_turns lx obs (Suc 0) = [\<not> lx]"
  by (simp add: quiet_turns_def)

lemma ends_from_0:
  "0 < N \<Longrightarrow> ends_from N has_cb q lx (ob # obs) 0 \<longleftrightarrow>
     (has_cb \<and> cb_true ob) \<or> aborted_after_sleep ob \<or> (\<not> lx \<and> N \<le> Suc q)"
  by (simp add: ends_from_def quiet_turns_one quiet_run_first)

lemma ends_from_Suc:
  "ends_from N has_cb q lx (ob # obs) (Suc j) \<longleftrightarrow>
     ends_from N has_cb (if \<not> lx then Suc q else 0) (rx_during_sleep ob) obs j"
proof (cases lx)
  case True
  then show ?thesis by (simp add: ends_from_def quiet_turns_Cons quiet_run_reset)
next
  case False
  then show ?thesis by (simp add: ends_from_def quiet_turns_Cons replicate_app_Cons_same)
qed

lemma waitQuiesce_loop_stop: "\<not> q < N \<Longrightarrow> waitQuiesce_loop N has_cb q lx obs = Returned (False, [])"
  by (cases obs) simp_all

lemma waitQuiesce_loop_ends:
  assumes "0 \<le> q" and "q < N" and "k < length obs"
    and "ends_from (nat N) has_cb (nat q) lx obs k"
    and "\<forall>j<k. \<not> ends_from (nat N) has_cb (nat q) lx obs j"
  shows "waitQuiesce_loop N has_cb q lx obs =
     Returned (aborted_after_sleep (obs ! k) \<and> \<not> (has_cb \<and> cb_true (obs ! k)), quiet_turns lx obs (Suc k))"
  using assms
proof (induction obs arbitrary: q lx k)
  case Nil
  then show ?case by simp
next
  case (Cons ob obs)
  let ?q' = "if \<not> lx then q + 1 else 0"
  have Npos: "0 < nat N" using Cons.prems(1,2) by simp
  have e0: "ends_from (nat N) has_cb (nat q) lx (ob # obs) 0 \<longleftrightarrow>
      (has_cb \<and> cb_true ob) \<or> aborted_after_sleep ob \<or> (\<not> lx \<and> N \<le> q + 1)"
    using Cons.prems(1,2) by (simp add: ends_from_0 [OF Npos]) linarith
  show ?case
  proof (cases k)
    case 0
    with Cons.prems(4) e0 consider (cb) "has_cb \<and> cb_true ob"
      | (ab) "\<not> (has_cb \<and> cb_true ob)" "aborted_after_sleep ob"
      | (quiet) "\<not> (has_cb \<and> cb_true ob)" "\<not> aborted_after_sleep ob" "\<not> lx" "N \<le> q + 1"
      by blast
    then show ?thesis
    proof cases
      case cb
      with Cons.prems(2) 0 show ?thesis by (simp add: Let_def quiet_turns_one)
    next
      case ab
      with Cons.prems(2) 0 show ?thesis by (auto simp: Let_def quiet_turns_one)
    next
      case quiet
      then have "waitQuiesce_loop N has_cb (q + 1) (rx_during_sleep ob) obs = Returned (False, [])"
        by (intro waitQuiesce_loop_stop) simp
      with quiet Cons.prems(2) 0 show ?thesis by (auto simp: Let_def quiet_turns_one)
    qed
  next
    case (Suc j)
    with Cons.prems(5) have "\<not> ends_from (nat N) has_cb (nat q) lx (ob # obs) 0" by simp
    with e0 have no: "\<not> (has_cb \<and> cb_true ob)" "\<not> aborted_after_sleep ob" "\<not> (\<not> lx \<and> N \<le> q + 1)"
      by simp_all
    have q0: "0 \<le> ?q'" using Cons.prems(1) by simp
    have qN: "?q' < N" using no(3) Cons.prems(1,2) by auto
    have nq: "nat ?q' = (if \<not> lx then Suc (nat q) else 0)" using Cons.prems(1) by (simp add: nat_add_distrib)
    have j: "j < length obs" using Cons.prems(3) Suc by simp
    have ej: "ends_from (nat N) has_cb (nat ?q') (rx_during_sleep ob) obs j"
      using Cons.prems(4) Suc unfolding nq by (simp only: ends_from_Suc)
    have nj: "\<forall>i<j. \<not> ends_from (nat N) has_cb (nat ?q') (rx_during_sleep ob) obs i"
    proof (intro allI impI)
      fix i assume "i < j"
      then have "Suc i < k" using Suc by simp
      with Cons.prems(5) have "\<not> ends_from (nat N) has_cb (nat q) lx (ob # obs) (Suc i)" by blast
      then show "\<not> ends_from (nat N) has_cb (nat ?q') (rx_during_sleep ob) obs i"
        unfolding nq ends_from_Suc .
    qed
    from Cons.IH [OF q0 qN j ej nj]
    have "waitQuiesce_loop N has_cb ?q' (rx_during_sleep ob) obs =
      Returned (aborted_after_sleep (obs ! j) \<and> \<not> (has_cb \<and> cb_true (obs ! j)),
                quiet_turns (rx_during_sleep ob) obs (Suc j))" .
    with no Cons.prems(2) Suc show ?thesis
      by (auto simp: Let_def quiet_turns_Cons)
  qed
qed

lemma waitQuiesce_loop_waits:
  assumes "0 \<le> q" and "q < N"
    and "\<forall>k<length obs. \<not> ends_from (nat N) has_cb (nat q) lx obs k"
  shows "waitQuiesce_loop N has_cb q lx obs = Pending"
  using assms
proof (induction obs arbitrary: q lx)
  case Nil
  then show ?case by simp
next
  case (Cons ob obs)
  let ?q' = "if \<not> lx then q + 1 else 0"
  have Npos: "0 < nat N" using Cons.prems(1,2) by simp
  have e0: "ends_from (nat N) has_cb (nat q) lx (ob # obs) 0 \<longleftrightarrow>
      (has_cb \<and> cb_true ob) \<or> aborted_after_sleep ob \<or> (\<not> lx \<and> N \<le> q + 1)"
    using Cons.prems(1,2) by (simp add: ends_from_0 [OF Npos]) linarith
  from Cons.prems(3) have "\<not> ends_from (nat N) has_cb (nat q) lx (ob # obs) 0" by simp
  with e0 have no: "\<not> (has_cb \<and> cb_true ob)" "\<not> aborted_after_sleep ob" "\<not> (\<not> lx \<and> N \<le> q + 1)"
    by simp_all
  have q0: "0 \<le> ?q'" using Cons.prems(1) by simp
  have qN: "?q' < N" using no(3) Cons.prems(1,2) by auto
  have nq: "nat ?q' = (if \<not> lx then Suc (nat q) else 0)" using Cons.prems(1) by (simp add: nat_add_distrib)
  have nj: "\<forall>i<length obs. \<not> ends_from (nat N) has_cb (nat ?q') (rx_during_sleep ob) obs i"
  proof (intro allI impI)
    fix i assume "i < length obs"
    then have "Suc i < length (ob # obs)" by simp
    with Cons.prems(3) have "\<not> ends_from (nat N) has_cb (nat q) lx (ob # obs) (Suc i)" by blast
    then show "\<not> ends_from (nat N) has_cb (nat ?q') (rx_during_sleep ob) obs i"
      unfolding nq ends_from_Suc .
  qed
  from Cons.IH [OF q0 qN nj] no Cons.prems(2) show ?case
    by (simp add: Let_def)
qed


lemma turn_ends_from: "turn_ends N has_cb lx obs k = ends_from N has_cb 0 lx obs k"
  by (simp add: turn_ends_def ends_from_def)

lemma sdiv_bounded:
  assumes "0 < a" and "b \<noteq> 0"
  shows "- a \<le> a sdiv b \<and> a sdiv b \<le> (a :: int)"
proof -
  have "1 \<le> \<bar>b\<bar>" using assms(2) by simp
  with assms(1) have "a div \<bar>b\<bar> \<le> a div 1" by (intro zdiv_mono2) simp_all
  then have le: "a div \<bar>b\<bar> \<le> a" by simp
  have ge: "0 \<le> a div \<bar>b\<bar>" using assms by (simp add: pos_imp_zdiv_nonneg_iff)
  have "a sdiv b = sgn b * (a div \<bar>b\<bar>)"
    using assms(1) by (simp add: signed_divide_int_def)
  then have "a sdiv b = a div \<bar>b\<bar> \<or> a sdiv b = - (a div \<bar>b\<bar>)"
    using assms(2) by (cases "0 < b") (simp_all add: sgn_if)
  with le ge show ?thesis by auto
qed

lemma maxQuiet_sint:
  assumes mw: "0 <s maxWait" and sl: "sleep \<noteq> 0"
  shows "sint (div64 maxWait sleep + 1) =
     (if sint maxWait sdiv sint sleep + 1 < 2 ^ 63 then sint maxWait sdiv sint sleep + 1 else - (2 ^ 63))"
proof -
  let ?q = "sint maxWait sdiv sint sleep"
  have a: "0 < sint maxWait" using mw by (simp add: word_sless_alt)
  have a2: "sint maxWait < 2 ^ 63" using sint_lt [of maxWait] by simp
  have b: "sint sleep \<noteq> 0" using sl by (simp add: signed_eq_0_iff)
  from sdiv_bounded [OF a b] have q: "- sint maxWait \<le> ?q" "?q \<le> sint maxWait" by simp_all
  have w: "div64 maxWait sleep + 1 = (word_of_int (?q + 1) :: int64)"
    by (simp add: div64_def)
  show ?thesis
  proof (cases "?q + 1 < 2 ^ 63")
    case True
    have "- (2 ^ 63) \<le> ?q + 1" using q(1) a2 by simp
    from sint_int64_in_range [OF this True] True w show ?thesis by simp
  next
    case False
    with q(2) a2 have "?q + 1 = 2 ^ 63" by simp
    then have "div64 maxWait sleep + 1 = (word_of_int (2 ^ 63) :: int64)" using w by simp
    then have "sint (div64 maxWait sleep + 1) = - (2 ^ 63)" by simp
    with False show ?thesis by simp
  qed
qed

text \<open>
  C2, as stated, fails: with a callback that returns true, \<^verbatim>\<open>waitQuiesce\<close> returns
  not-aborted after a single turn, here a turn that was not even quiet, while
  \<^verbatim>\<open>maxWait/CplaneOperation + 1\<close> is 11.
\<close>

theorem waitQuiesce_cb_counterexample:
  "waitQuiesce (m0\<lparr>laterx := True\<rparr>) cfg0 20000000000 True
      [\<lparr>cb_true = True, aborted_after_sleep = False, rx_during_sleep = True\<rparr>] = Returned (False, [False])
   \<and> \<not> quiet_run (nat (sint (div64 20000000000 (CplaneOperation (Timeout cfg0))) + 1)) [False]"
  by (simp add: waitQuiesce_def cfg0_def m0_def div64_def signed_divide_int_def quiet_run_def Let_def
      word_sless_alt)

text \<open>
  C2, amended. Let \<^verbatim>\<open>maxWait\<close> be positive, \<^verbatim>\<open>CplaneOperation\<close> not zero, and
  \<open>N = maxWait/CplaneOperation + 1\<close> with Go's division. A wait that finds the run
  aborted on entry returns aborted at once. Otherwise, when \<open>N\<close> is not positive or does
  not fit an \<^verbatim>\<open>int64\<close>, it returns not-aborted at once. Otherwise it makes turn after turn
  and returns at the first turn at which the callback returns true (not-aborted, whatever
  the count), or the sleep sees the abort (aborted), or the last \<open>N\<close> turns, this one
  included, were all quiet (not-aborted); until such a turn comes it keeps waiting. A
  turn is quiet exactly when \<^verbatim>\<open>laterx\<close> was not set since the turn before, so that one
  turn with traffic starts the count again.
\<close>

theorem waitQuiesce_quiet_ticks:
  assumes mw: "0 <s maxWait" and sl: "CplaneOperation (Timeout config) \<noteq> 0"
    and N: "N = sint maxWait sdiv sint (CplaneOperation (Timeout config)) + 1"
  shows "(xreb_aborted m \<longrightarrow> waitQuiesce m config maxWait has_cb obs = Returned (True, []))
       \<and> (\<not> xreb_aborted m \<and> (N \<le> 0 \<or> 2 ^ 63 \<le> N) \<longrightarrow>
            waitQuiesce m config maxWait has_cb obs = Returned (False, []))
       \<and> (\<not> xreb_aborted m \<and> 0 < N \<and> N < 2 ^ 63 \<longrightarrow>
            (\<forall>k. first_end (nat N) has_cb (laterx m) obs k \<longrightarrow>
                 waitQuiesce m config maxWait has_cb obs =
                   Returned (aborted_after_sleep (obs ! k) \<and> \<not> (has_cb \<and> cb_true (obs ! k)),
                             quiet_turns (laterx m) obs (Suc k)))
          \<and> ((\<forall>k<length obs. \<not> turn_ends (nat N) has_cb (laterx m) obs k) \<longrightarrow>
                 waitQuiesce m config maxWait has_cb obs = Pending))"
proof -
  let ?sleep = "CplaneOperation (Timeout config)"
  let ?M = "sint (div64 maxWait ?sleep + 1)"
  have M: "?M = (if N < 2 ^ 63 then N else - (2 ^ 63))"
    unfolding N using mw sl by (rule maxQuiet_sint)
  have unfold: "waitQuiesce m config maxWait has_cb obs =
      (if xreb_aborted m then Returned (True, []) else waitQuiesce_loop ?M has_cb 0 (laterx m) obs)"
    using mw sl by (simp add: waitQuiesce_def Let_def)
  have p1: "waitQuiesce m config maxWait has_cb obs = Returned (True, [])" if "xreb_aborted m"
    using that unfold by simp
  have p2: "waitQuiesce m config maxWait has_cb obs = Returned (False, [])"
    if "\<not> xreb_aborted m" "N \<le> 0 \<or> 2 ^ 63 \<le> N"
  proof -
    from that(2) M have "\<not> 0 < ?M" by auto
    then have "waitQuiesce_loop ?M has_cb 0 (laterx m) obs = Returned (False, [])"
      by (rule waitQuiesce_loop_stop)
    with that(1) unfold show ?thesis by simp
  qed
  have p3: "waitQuiesce m config maxWait has_cb obs =
                   Returned (aborted_after_sleep (obs ! k) \<and> \<not> (has_cb \<and> cb_true (obs ! k)),
                             quiet_turns (laterx m) obs (Suc k))"
    if "\<not> xreb_aborted m" "0 < N" "N < 2 ^ 63" "first_end (nat N) has_cb (laterx m) obs k" for k
  proof -
    from that(3) M have MN: "?M = N" by simp
    from that(4) have k: "k < length obs" and e: "ends_from (nat N) has_cb (nat 0) (laterx m) obs k"
      and n: "\<forall>j<k. \<not> ends_from (nat N) has_cb (nat 0) (laterx m) obs j"
      by (simp_all add: first_end_def turn_ends_from)
    have "waitQuiesce_loop N has_cb 0 (laterx m) obs =
        Returned (aborted_after_sleep (obs ! k) \<and> \<not> (has_cb \<and> cb_true (obs ! k)),
                  quiet_turns (laterx m) obs (Suc k))"
      using _ that(2) k e n by (rule waitQuiesce_loop_ends) simp
    with that(1) unfold MN show ?thesis by simp
  qed
  have p4: "waitQuiesce m config maxWait has_cb obs = Pending"
    if "\<not> xreb_aborted m" "0 < N" "N < 2 ^ 63"
      "\<forall>k<length obs. \<not> turn_ends (nat N) has_cb (laterx m) obs k"
  proof -
    from that(3) M have MN: "?M = N" by simp
    from that(4) have n: "\<forall>k<length obs. \<not> ends_from (nat N) has_cb (nat 0) (laterx m) obs k"
      by (simp add: turn_ends_from)
    have "waitQuiesce_loop N has_cb 0 (laterx m) obs = Pending"
      using _ that(2) n by (rule waitQuiesce_loop_waits) simp
    with that(1) unfold MN show ?thesis by simp
  qed
  from p1 p2 p3 p4 show ?thesis by blast
qed

theorem waitQuiesce_quiet_ticks_witness:
  "waitQuiesce m0 cfg0 4000000000 False [quiet_obs, quiet_obs, quiet_obs] = Returned (False, [True, True, True])
   \<and> waitQuiesce m0 cfg0 4000000000 False [quiet_obs, quiet_obs] = Pending"
proof -
  have h1: "0 <s (4000000000 :: int64)" by (simp add: word_sless_alt)
  have h2: "CplaneOperation (Timeout cfg0) \<noteq> 0" by (simp add: cfg0_def)
  have h3: "(3 :: int) = sint (4000000000 :: int64) sdiv sint (CplaneOperation (Timeout cfg0)) + 1"
    by (simp add: cfg0_def signed_divide_int_def)
  have live: "\<not> xreb_aborted m0" and lx: "laterx m0 = False" by (simp_all add: m0_def)
  have fe: "first_end 3 False False [quiet_obs, quiet_obs, quiet_obs] 2"
    by (simp add: first_end_def turn_ends_def quiet_turns_def quiet_run_def quiet_obs_def
        eval_nat_numeral less_Suc_eq)
  have ne: "\<forall>k<length [quiet_obs, quiet_obs]. \<not> turn_ends 3 False False [quiet_obs, quiet_obs] k"
    by (simp add: turn_ends_def quiet_turns_def quiet_run_def quiet_obs_def
        eval_nat_numeral less_Suc_eq)
  from waitQuiesce_quiet_ticks [OF h1 h2 h3, of m0 False "[quiet_obs, quiet_obs, quiet_obs]"] live fe
  have r1: "waitQuiesce m0 cfg0 4000000000 False [quiet_obs, quiet_obs, quiet_obs] =
      Returned (aborted_after_sleep ([quiet_obs, quiet_obs, quiet_obs] ! 2)
                \<and> \<not> (False \<and> cb_true ([quiet_obs, quiet_obs, quiet_obs] ! 2)),
                quiet_turns False [quiet_obs, quiet_obs, quiet_obs] (Suc 2))"
    by (simp add: lx)
  from waitQuiesce_quiet_ticks [OF h1 h2 h3, of m0 False "[quiet_obs, quiet_obs]"] live ne
  have r2: "waitQuiesce m0 cfg0 4000000000 False [quiet_obs, quiet_obs] = Pending"
    by (simp add: lx)
  from r1 r2 show ?thesis
    by (simp add: quiet_turns_def quiet_obs_def eval_nat_numeral)
qed


subsection \<open>C4: waitForPushReqs\<close>







subsection \<open>C9: lookupCreate twice\<close>

lemma lookupCreate_again:
  "lookupCreate (snd (lookupCreate w uid slot mode)) uid slot mode'
     = (fst (lookupCreate w uid slot mode), snd (lookupCreate w uid slot mode))"
  by (auto simp: lookupCreate_def Let_def split: option.splits)

text \<open>
  C9. For every registry, uid and slot, a second \<^verbatim>\<open>lookupCreate\<close> with the same uid and
  slot returns the waiter handle of the first call, and leaves the registry, and so the
  counter \<^verbatim>\<open>waitFor\<close> of outstanding waiters, as the first call left it.
\<close>

theorem lookupCreate_twice:
  "lookupCreate (snd (lookupCreate w uid slot mode)) uid slot mode'
     = (fst (lookupCreate w uid slot mode), snd (lookupCreate w uid slot mode))
   \<and> waitFor (snd (lookupCreate (snd (lookupCreate w uid slot mode)) uid slot mode'))
     = waitFor (snd (lookupCreate w uid slot mode))"
  by (simp add: lookupCreate_again)

subsection \<open>C3: the wait-ack deadline\<close>

lemma MinDur_sint: "sint (MinDur a b) = min (sint a) (sint b)"
  by (simp add: MinDur_def word_sless_alt min_def)

text \<open>
  C3, as stated, fails where the \<^verbatim>\<open>int64\<close> arithmetic wraps: with \<^verbatim>\<open>DestRetryTime\<close> at
  the largest \<^verbatim>\<open>int64\<close> and ten targets, the sum with one minute wraps to a negative
  number of nanoseconds and the double wraps to -2, so the deadline is negative, while
  the smaller of the two numbers of the claim is 9223372036854775807 + 60000000000.
\<close>

theorem waitAck_maxwt_overflow_counterexample:
  "sint (waitAck_maxwt cfg_far smap10) = - 9223371976854775809
   \<and> \<not> (sint (waitAck_maxwt cfg_far smap10) =
          min (sint (DestRetryTime (Rebalance cfg_far)) + 60000000000 * int (length (Tmap smap10) div 10))
              (2 * sint (DestRetryTime (Rebalance cfg_far))))"
  by (simp add: waitAck_maxwt_def cfg_far_def smap10_def CountTargets_def Minute_def Second_def
      MinDur_def word_sless_alt Let_def)

text \<open>
  C3, amended. Let \<open>D\<close> be \<^verbatim>\<open>DestRetryTime\<close> in nanoseconds and \<open>T\<close> the number of targets
  of the cluster map. Whenever the two numbers \<open>D + 60000000000 * (T div 10)\<close> and
  \<open>2 * D\<close> are in the range of \<^verbatim>\<open>int64\<close>, the deadline of the wait-ack polling loop is
  the smaller of the two.
\<close>

theorem waitAck_maxwt_is_min:
  assumes "- (2 ^ 63) \<le> sint (DestRetryTime (Rebalance config)) + 60000000000 * int (length (Tmap smap) div 10)"
    and "sint (DestRetryTime (Rebalance config)) + 60000000000 * int (length (Tmap smap) div 10) < 2 ^ 63"
    and "- (2 ^ 63) \<le> 2 * sint (DestRetryTime (Rebalance config))"
    and "2 * sint (DestRetryTime (Rebalance config)) < 2 ^ 63"
  shows "sint (waitAck_maxwt config smap) =
     min (sint (DestRetryTime (Rebalance config)) + 60000000000 * int (length (Tmap smap) div 10))
         (2 * sint (DestRetryTime (Rebalance config)))"
proof -
  let ?D = "DestRetryTime (Rebalance config)"
  let ?k = "length (Tmap smap) div 10"
  have "?D + Minute * of_nat (CountTargets smap div 10) = word_of_int (sint ?D + 60000000000 * int ?k)"
    by (simp add: Minute_def Second_def CountTargets_def)
  then have a: "sint (?D + Minute * of_nat (CountTargets smap div 10)) = sint ?D + 60000000000 * int ?k"
    using sint_int64_in_range [OF assms(1,2)] by simp
  have "?D * 2 = word_of_int (2 * sint ?D)"
    by simp
  then have b: "sint (?D * 2) = 2 * sint ?D"
    using sint_int64_in_range [OF assms(3,4)] by (simp add: mult.commute)
  show ?thesis
    by (simp add: waitAck_maxwt_def Let_def MinDur_sint a b)
qed

theorem waitAck_maxwt_is_min_witness:
  "sint (waitAck_maxwt cfg0 smap10) = 180000000000"
  using waitAck_maxwt_is_min [of cfg0 smap10]
  by (simp add: cfg0_def smap10_def)

subsection \<open>C8: when erasure coding spills to disk\<close>

text \<open>
  C8, as stated, fails: under Extreme pressure an empty object already goes to disk, and
  under High pressure an object of exactly 50 MiB stays in memory.
\<close>

theorem useDisk_claim_counterexample:
  "\<not> (useDisk MemPressureExtreme 0 \<longleftrightarrow>
        (pressure_level MemPressureHigh \<le> pressure_level MemPressureExtreme \<and> objSizeHighMem \<le>s 0))"
  by (simp add: objSizeHighMem_def MiB_def word_sle_eq)

text \<open>
  C8, amended. \<^verbatim>\<open>useDisk\<close> returns true exactly when the pressure is Extreme or OOM
  (whatever the size), or the pressure is High and the working size is strictly greater
  than 50 MiB (52428800 bytes).
\<close>

theorem useDisk_iff:
  "useDisk p objSize \<longleftrightarrow>
     (p = OOM \<or> p = MemPressureExtreme \<or> (p = MemPressureHigh \<and> 52428800 < sint objSize))"
  by (cases p) (simp_all add: objSizeHighMem_def MiB_def word_sless_alt)

subsection \<open>The collector: what a tick does to one stream\<close>

lemma heap_frame_refl: "heap_frame gc gc"
  by (simp add: heap_frame_def)

lemma heap_frame_trans: "heap_frame a b \<Longrightarrow> heap_frame b c \<Longrightarrow> heap_frame a c"
  by (simp add: heap_frame_def)

lemma unindexed_index [simp]: "unindexed (s\<lparr>index := i\<rparr>) = unindexed s"
  by (simp add: unindexed_def)

lemma set_swap_list: "i < length xs \<Longrightarrow> j < length xs \<Longrightarrow> set (xs[i := xs ! j, j := xs ! i]) = set xs"
  by (metis (no_types) set_swap)

lemma Swap_frame: "Swap gc i j = Some gc' \<Longrightarrow> heap_frame gc gc'"
  by (auto simp: Swap_def Let_def set_index_def heap_frame_def Len_def set_swap_list fun_eq_iff
      split: if_splits)

lemma Swap_Len: "Swap gc i j = Some gc' \<Longrightarrow> Len gc' = Len gc"
  by (auto simp: Swap_def Let_def set_index_def Len_def split: if_splits)

lemma up_zero: "up gc 0 = Some gc"
  by (simp add: up.simps [of gc 0])

lemma up_pos:
  "0 < j \<Longrightarrow> up gc j =
     (case Less gc j ((j - 1) div 2) of
        None \<Rightarrow> None
      | Some lt \<Rightarrow>
          if \<not> lt then Some gc
          else (case Swap gc ((j - 1) div 2) j of None \<Rightarrow> None | Some gc' \<Rightarrow> up gc' ((j - 1) div 2)))"
proof -
  assume "0 < j"
  then have "(j - 1) div 2 \<noteq> j" by arith
  then show ?thesis by (subst up.simps) (simp add: Let_def split: option.splits)
qed

lemma up_cases:
  assumes "up gc j = Some gc'"
  obtains (root) "j = 0" "gc' = gc"
    | (stay) "0 < j" "Less gc j ((j - 1) div 2) = Some False" "gc' = gc"
    | (swap) gc1 where "0 < j" "Less gc j ((j - 1) div 2) = Some True"
        "Swap gc ((j - 1) div 2) j = Some gc1" "up gc1 ((j - 1) div 2) = Some gc'"
proof (cases "j = 0")
  case True
  with assms have "gc' = gc" by (simp add: up_zero)
  with True show ?thesis by (rule root)
next
  case False
  then have pos: "0 < j" by simp
  from assms show ?thesis
    unfolding up_pos [OF pos]
    by (auto split: option.splits if_splits intro: stay [OF pos] swap [OF pos])
qed

lemma up_frame: "up gc j = Some gc' \<Longrightarrow> heap_frame gc gc'"
proof (induction j arbitrary: gc gc' rule: less_induct)
  case (less j)
  from less.prems show ?case
  proof (cases rule: up_cases)
    case root
    then show ?thesis by (simp add: heap_frame_refl)
  next
    case stay
    then show ?thesis by (simp add: heap_frame_refl)
  next
    case (swap gc1)
    have "(j - 1) div 2 < j" using swap(1) by arith
    from less.IH [OF this swap(4)] Swap_frame [OF swap(3)]
    show ?thesis by (blast intro: heap_frame_trans)
  qed
qed

lemma down_loop_stop: "n \<le> 2 * i + 1 \<Longrightarrow> down_loop gc i n = Some (gc, i)"
  by (subst down_loop.simps) (simp add: Let_def)

lemma down_loop_step:
  "2 * i + 1 < n \<Longrightarrow> down_loop gc i n =
     (case down_child gc i n of
        None \<Rightarrow> None
      | Some j \<Rightarrow>
          (case Less gc j i of
             None \<Rightarrow> None
           | Some lt \<Rightarrow>
               if \<not> lt then Some (gc, i)
               else (case Swap gc i j of None \<Rightarrow> None | Some gc' \<Rightarrow> down_loop gc' j n)))"
  by (subst down_loop.simps) (simp add: Let_def down_child_def split: option.splits)

lemma down_child_range: "down_child gc i n = Some j \<Longrightarrow> 2 * i + 1 < n \<Longrightarrow> i < j \<and> j < n \<and> (j = 2 * i + 1 \<or> j = 2 * i + 2)"
  by (auto simp: down_child_def split: option.splits if_splits)

lemma down_loop_cases:
  assumes "down_loop gc i n = Some (gc', k)"
  obtains (leaf) "n \<le> 2 * i + 1" "gc' = gc" "k = i"
    | (stay) j where "2 * i + 1 < n" "down_child gc i n = Some j" "Less gc j i = Some False"
        "gc' = gc" "k = i"
    | (swap) j gc1 where "2 * i + 1 < n" "down_child gc i n = Some j" "Less gc j i = Some True"
        "Swap gc i j = Some gc1" "down_loop gc1 j n = Some (gc', k)"
proof (cases "n \<le> 2 * i + 1")
  case True
  with assms have "gc' = gc" "k = i" by (simp_all add: down_loop_stop)
  with True show ?thesis by (rule leaf)
next
  case False
  then have lt: "2 * i + 1 < n" by simp
  from assms show ?thesis
    unfolding down_loop_step [OF lt]
    by (auto split: option.splits if_splits intro: stay [OF lt] swap [OF lt])
qed

lemma down_loop_frame: "down_loop gc i n = Some (gc', k) \<Longrightarrow> heap_frame gc gc' \<and> i \<le> k"
proof (induction "n - i" arbitrary: gc i rule: less_induct)
  case less
  from less.prems show ?case
  proof (cases rule: down_loop_cases)
    case leaf
    then show ?thesis by (simp add: heap_frame_refl)
  next
    case stay
    then show ?thesis by (simp add: heap_frame_refl)
  next
    case (swap j gc1)
    from down_child_range [OF swap(2,1)] have ij: "i < j" "j < n" by simp_all
    then have "n - j < n - i" by arith
    from less.hyps [OF this swap(5)] Swap_frame [OF swap(4)] ij
    show ?thesis by (auto intro: heap_frame_trans)
  qed
qed

lemma Fix_frame: "Fix gc i = Some gc' \<Longrightarrow> heap_frame gc gc'"
  by (auto simp: Fix_def down_def split: option.splits if_splits prod.splits
      dest!: down_loop_frame up_frame intro: heap_frame_trans)

lemma heap_frame_view: "heap_frame gc gc' \<Longrightarrow> stream_view gc' s = stream_view gc s"
  by (auto simp: heap_frame_def stream_view_def events_of_def fun_eq_iff)

lemma unindexed_fields:
  "ticks (unindexed x) = ticks x" "idleOut (unindexed x) = idleOut x" "posted (unindexed x) = posted x"
  "workCh (unindexed x) = workCh x" "workCh_closed (unindexed x) = workCh_closed x"
  "sessST (unindexed x) = sessST x" "terminated (unindexed x) = terminated x"
  "term_err (unindexed x) = term_err x"
  by (simp_all add: unindexed_def)

lemma unindexed_eqD:
  assumes "unindexed a = unindexed b"
  shows "ticks a = ticks b" "idleOut a = idleOut b" "posted a = posted b" "workCh a = workCh b"
    "workCh_closed a = workCh_closed b" "sessST a = sessST b" "terminated a = terminated b"
    "term_err a = term_err b"
  using arg_cong [OF assms, of ticks] arg_cong [OF assms, of idleOut] arg_cong [OF assms, of posted]
    arg_cong [OF assms, of workCh] arg_cong [OF assms, of workCh_closed] arg_cong [OF assms, of sessST]
    arg_cong [OF assms, of terminated] arg_cong [OF assms, of term_err]
  by (simp_all add: unindexed_fields)

lemma set_ticks_view_other: "l \<noteq> s \<Longrightarrow> stream_view (set_ticks l t gc) s = stream_view gc s"
  by (simp add: set_ticks_def stream_view_def events_of_def)

lemma set_ticks_view_self:
  "stream_view (set_ticks s t gc) s = (unindexed ((mem gc s)\<lparr>ticks := t\<rparr>), s \<in> streams gc, events_of s gc)"
  by (simp add: set_ticks_def stream_view_def events_of_def)

lemma update_view_other:
  "update gc l t = Some gc' \<Longrightarrow> l \<noteq> s \<Longrightarrow> stream_view gc' s = stream_view gc s"
  by (auto simp: update_def Let_def split: if_splits dest!: Fix_frame heap_frame_view [where s = s]
      simp: set_ticks_view_other)

lemma update_view_self:
  "update gc s t = Some gc' \<Longrightarrow>
     stream_view gc' s = (unindexed ((mem gc s)\<lparr>ticks := t\<rparr>), s \<in> streams gc, events_of s gc)"
  by (auto simp: update_def Let_def split: if_splits dest!: Fix_frame heap_frame_view [where s = s]
      simp: set_ticks_view_self)

lemma do_terminated_view_other:
  "do_terminated gc l = Some gc' \<Longrightarrow> l \<noteq> s \<Longrightarrow> stream_view gc' s = stream_view gc s"
  by (auto simp: do_terminated_def Let_def set_ticks_def stream_view_def events_of_def split: if_splits)

lemma do_first_view_other:
  "do_first gc l = Some gc' \<Longrightarrow> l \<noteq> s \<Longrightarrow> stream_view gc' s = stream_view gc s"
  by (auto simp: do_first_def split: if_splits dest: do_terminated_view_other update_view_other)

lemma do_second_view_other:
  "do_second tu tm gc l = Some gc' \<Longrightarrow> l \<noteq> s \<Longrightarrow> stream_view gc' s = stream_view gc s"
proof -
  assume a: "do_second tu tm gc l = Some gc'" and ne: "l \<noteq> s"
  show ?thesis
  proof (cases "0 < ticks (mem gc l)")
    case True
    with a show ?thesis by (simp add: do_second_def)
  next
    case False
    with a obtain g1 where up: "update gc l (sint (div64 (idleOut (mem gc l)) tu)) = Some g1"
      by (auto simp: do_second_def split: option.splits)
    have v1: "stream_view g1 s = stream_view gc s" using up ne by (rule update_view_other)
    have "stream_view gc' s = stream_view g1 s"
      using a False up ne
      by (auto simp: do_second_def Let_def stream_view_def events_of_def split: if_splits)
    with v1 show ?thesis by simp
  qed
qed

lemma range_streams_view_notin:
  assumes other: "\<And>g l g'. body g l = Some g' \<Longrightarrow> l \<noteq> s \<Longrightarrow> stream_view g' s = stream_view g s"
  shows "range_streams body gc order = Some gc' \<Longrightarrow> s \<notin> set order \<Longrightarrow>
         stream_view gc' s = stream_view gc s"
proof (induction order arbitrary: gc)
  case Nil
  then show ?case by simp
next
  case (Cons l order)
  show ?case
  proof (cases "l \<in> streams gc")
    case False
    with Cons show ?thesis by simp
  next
    case True
    with Cons.prems obtain g1 where b: "body gc l = Some g1" and r: "range_streams body g1 order = Some gc'"
      by (auto split: option.splits)
    have "l \<noteq> s" "s \<notin> set order" using Cons.prems(2) by auto
    from other [OF b this(1)] Cons.IH [OF r this(2)] show ?thesis by simp
  qed
qed

lemma range_streams_view_fixed:
  assumes other: "\<And>g l g'. body g l = Some g' \<Longrightarrow> l \<noteq> s \<Longrightarrow> stream_view g' s = stream_view g s"
    and self: "\<And>g g'. body g s = Some g' \<Longrightarrow> s \<in> streams g \<Longrightarrow> stream_view g s = v \<Longrightarrow> stream_view g' s = v"
  shows "range_streams body gc order = Some gc' \<Longrightarrow> stream_view gc s = v \<Longrightarrow> stream_view gc' s = v"
proof (induction order arbitrary: gc)
  case Nil
  then show ?case by simp
next
  case (Cons l order)
  show ?case
  proof (cases "l \<in> streams gc")
    case False
    with Cons show ?thesis by simp
  next
    case True
    with Cons.prems obtain g1 where b: "body gc l = Some g1" and r: "range_streams body g1 order = Some gc'"
      by (auto split: option.splits)
    have "stream_view g1 s = v"
    proof (cases "l = s")
      case True
      from b True have "body gc s = Some g1" by simp
      moreover from \<open>l \<in> streams gc\<close> True have "s \<in> streams gc" by simp
      ultimately show ?thesis using Cons.prems(2) by (rule self)
    next
      case False
      from other [OF b False] Cons.prems(2) show ?thesis by simp
    qed
    with r show ?thesis by (rule Cons.IH)
  qed
qed

lemma range_streams_split:
  assumes other: "\<And>g l g'. body g l = Some g' \<Longrightarrow> l \<noteq> s \<Longrightarrow> stream_view g' s = stream_view g s"
  shows "range_streams body gc order = Some gc' \<Longrightarrow> s \<in> set order \<Longrightarrow> distinct order \<Longrightarrow>
         s \<in> streams gc \<Longrightarrow>
         \<exists>g1 g2. stream_view g1 s = stream_view gc s \<and> body g1 s = Some g2
                 \<and> stream_view gc' s = stream_view g2 s"
proof (induction order arbitrary: gc)
  case Nil
  then show ?case by simp
next
  case (Cons l order)
  show ?case
  proof (cases "l = s")
    case True
    with Cons.prems obtain g2 where b: "body gc s = Some g2" and r: "range_streams body g2 order = Some gc'"
      by (auto split: option.splits)
    have "s \<notin> set order" using Cons.prems(3) True by simp
    with other r have "stream_view gc' s = stream_view g2 s"
      by (rule range_streams_view_notin)
    with b show ?thesis by blast
  next
    case False
    note ne = this
    with Cons.prems have in_rest: "s \<in> set order" "distinct order" by simp_all
    show ?thesis
    proof (cases "l \<in> streams gc")
      case False
      with Cons.prems(1) have "range_streams body gc order = Some gc'" by simp
      from Cons.IH [OF this in_rest Cons.prems(4)] show ?thesis .
    next
      case True
      with Cons.prems(1) obtain g1 where b: "body gc l = Some g1"
        and r: "range_streams body g1 order = Some gc'"
        by (auto split: option.splits)
      from other [OF b ne] have v: "stream_view g1 s = stream_view gc s" .
      then have "s \<in> streams g1" using Cons.prems(4) by (simp add: stream_view_def)
      from Cons.IH [OF r in_rest this] v show ?thesis by auto
    qed
  qed
qed

lemma do_terminated_view_self:
  assumes "do_terminated gc s = Some gc'"
  shows "stream_view gc' s =
     (if ticks (mem gc s) - 1 \<le> 0
      then (unindexed ((mem gc s)\<lparr>ticks := ticks (mem gc s) - 1, workCh := [], workCh_closed := True,
                                  term_err := Some (stored_error (mem gc s))\<rparr>),
            False,
            events_of s gc @ ChanClosed s # map (\<lambda>ob. ObjDone s ob (stored_error (mem gc s))) (workCh (mem gc s)))
      else (unindexed ((mem gc s)\<lparr>ticks := ticks (mem gc s) - 1\<rparr>), s \<in> streams gc, events_of s gc))"
  using assms
  by (auto simp: do_terminated_def Let_def set_ticks_def stream_view_def events_of_def stored_error_def
      unindexed_def comp_def split: if_splits)

lemma do_second_skip: "0 < ticks (mem gc s) \<Longrightarrow> do_second tu tm gc s = Some gc"
  by (simp add: do_second_def)

text \<open>
  C7, amended. On every collector tick the ticks of each terminated stream of the map are
  decremented. When they reach 0 or less the stream is removed from the map, its queue is
  closed, and then the queue is drained: the completion callback of each frame left runs
  with the stored termination error, or with the error ``unknown reason'' when none was
  stored. Otherwise the stream stays in the map and its queue is left as it is.
\<close>

theorem do_terminated_stream:
  assumes run: "do tickUnit tickMarker gc order1 order2 = Some gc'"
    and reg: "s \<in> streams gc" and ord: "s \<in> set order1" "distinct order1"
    and dead: "terminated (mem gc s)"
  shows "ticks (mem gc' s) = ticks (mem gc s) - 1
       \<and> (ticks (mem gc s) - 1 \<le> 0 \<longrightarrow>
            s \<notin> streams gc' \<and> workCh (mem gc' s) = [] \<and> workCh_closed (mem gc' s)
            \<and> term_err (mem gc' s) = Some (stored_error (mem gc s))
            \<and> events_of s gc' = events_of s gc @ ChanClosed s
                 # map (\<lambda>ob. ObjDone s ob (stored_error (mem gc s))) (workCh (mem gc s)))
       \<and> (0 < ticks (mem gc s) - 1 \<longrightarrow>
            s \<in> streams gc' \<and> workCh (mem gc' s) = workCh (mem gc s)
            \<and> workCh_closed (mem gc' s) = workCh_closed (mem gc s)
            \<and> events_of s gc' = events_of s gc)"
proof -
  from run obtain gc1 where l1: "range_streams do_first gc order1 = Some gc1"
    and l2: "range_streams (do_second tickUnit tickMarker) gc1 order2 = Some gc'"
    by (auto simp: do_def split: option.splits)
  have "\<exists>g1 g2. stream_view g1 s = stream_view gc s \<and> do_first g1 s = Some g2
                 \<and> stream_view gc1 s = stream_view g2 s"
    by (rule range_streams_split [where body = do_first, OF _ l1 ord reg]) (rule do_first_view_other)
  then obtain g1 g2 where v1: "stream_view g1 s = stream_view gc s" and b: "do_first g1 s = Some g2"
    and v2: "stream_view gc1 s = stream_view g2 s"
    by blast
  from v1 have u1: "unindexed (mem g1 s) = unindexed (mem gc s)" and e1: "events_of s g1 = events_of s gc"
    and r1: "s \<in> streams g1" using reg by (simp_all add: stream_view_def)
  note f1 = unindexed_eqD [OF u1]
  have se: "stored_error (mem g1 s) = stored_error (mem gc s)"
    using f1 by (simp add: stored_error_def)
  from b f1 dead have "do_terminated g1 s = Some g2" by (simp add: do_first_def)
  note vt = do_terminated_view_self [OF this]
  let ?t = "ticks (mem gc s) - 1"
  show ?thesis
  proof (cases "?t \<le> 0")
    case True
    with vt f1 have vg2: "stream_view g2 s =
        (unindexed ((mem g1 s)\<lparr>ticks := ?t, workCh := [], workCh_closed := True,
                                  term_err := Some (stored_error (mem gc s))\<rparr>),
         False,
         events_of s gc @ ChanClosed s # map (\<lambda>ob. ObjDone s ob (stored_error (mem gc s))) (workCh (mem gc s)))"
      by (simp add: se e1)
    have "stream_view gc' s = stream_view gc1 s"
    proof (rule range_streams_view_fixed [where body = "do_second tickUnit tickMarker", OF _ _ l2 refl])
      show "\<And>g l g'. do_second tickUnit tickMarker g l = Some g' \<Longrightarrow> l \<noteq> s \<Longrightarrow> stream_view g' s = stream_view g s"
        by (rule do_second_view_other)
      show "\<And>g g'. do_second tickUnit tickMarker g s = Some g' \<Longrightarrow> s \<in> streams g \<Longrightarrow>
              stream_view g s = stream_view gc1 s \<Longrightarrow> stream_view g' s = stream_view gc1 s"
        using v2 vg2 by (simp add: stream_view_def)
    qed
    with v2 vg2 have fin: "stream_view gc' s =
        (unindexed ((mem g1 s)\<lparr>ticks := ?t, workCh := [], workCh_closed := True,
                                  term_err := Some (stored_error (mem gc s))\<rparr>),
         False,
         events_of s gc @ ChanClosed s # map (\<lambda>ob. ObjDone s ob (stored_error (mem gc s))) (workCh (mem gc s)))"
      by simp
    then have u: "unindexed (mem gc' s) = unindexed ((mem g1 s)\<lparr>ticks := ?t, workCh := [], workCh_closed := True,
                                  term_err := Some (stored_error (mem gc s))\<rparr>)"
      and "s \<notin> streams gc'"
      and "events_of s gc' = events_of s gc @ ChanClosed s # map (\<lambda>ob. ObjDone s ob (stored_error (mem gc s))) (workCh (mem gc s))"
      by (simp_all add: stream_view_def)
    with unindexed_eqD [OF u] True show ?thesis by simp
  next
    case False
    with vt f1 have vg2: "stream_view g2 s = (unindexed ((mem g1 s)\<lparr>ticks := ?t\<rparr>), True, events_of s gc)"
      by (simp add: e1 r1)
    have "stream_view gc' s = stream_view gc1 s"
    proof (rule range_streams_view_fixed [where body = "do_second tickUnit tickMarker", OF _ _ l2 refl])
      show "\<And>g l g'. do_second tickUnit tickMarker g l = Some g' \<Longrightarrow> l \<noteq> s \<Longrightarrow> stream_view g' s = stream_view g s"
        by (rule do_second_view_other)
      fix g g'
      assume d: "do_second tickUnit tickMarker g s = Some g'" and "s \<in> streams g"
        and v: "stream_view g s = stream_view gc1 s"
      from v v2 vg2 have "unindexed (mem g s) = unindexed ((mem g1 s)\<lparr>ticks := ?t\<rparr>)"
        by (simp add: stream_view_def)
      from unindexed_eqD(1) [OF this] False have "0 < ticks (mem g s)" by simp
      from do_second_skip [OF this] d have "g' = g" by simp
      with v show "stream_view g' s = stream_view gc1 s" by simp
    qed
    with v2 vg2 have fin: "stream_view gc' s = (unindexed ((mem g1 s)\<lparr>ticks := ?t\<rparr>), True, events_of s gc)"
      by simp
    then have u: "unindexed (mem gc' s) = unindexed ((mem g1 s)\<lparr>ticks := ?t\<rparr>)"
      and "s \<in> streams gc'" and "events_of s gc' = events_of s gc"
      by (simp_all add: stream_view_def)
    with unindexed_eqD [OF u] f1 False show ?thesis by simp
  qed
qed

lemma idle_result_unindexed:
  "unindexed (idle_result tu tm x) = idle_result tu tm (unindexed x)"
  by (simp add: idle_result_def unindexed_def Let_def)

lemma do_second_view_self:
  assumes "do_second tu tm gc s = Some gc'" and "\<not> 0 < ticks (mem gc s)"
  shows "stream_view gc' s = (unindexed (idle_result tu tm (mem gc s)), s \<in> streams gc, events_of s gc)"
proof -
  from assms obtain g1 where up: "update gc s (sint (div64 (idleOut (mem gc s)) tu)) = Some g1"
    by (auto simp: do_second_def split: option.splits)
  from update_view_self [OF up]
  have u1: "unindexed (mem g1 s) = unindexed ((mem gc s)\<lparr>ticks := sint (div64 (idleOut (mem gc s)) tu)\<rparr>)"
    and r1: "(s \<in> streams g1) = (s \<in> streams gc)" and e1: "events_of s g1 = events_of s gc"
    by (simp_all add: stream_view_def)
  have "mem g1 s = (mem gc s)\<lparr>ticks := sint (div64 (idleOut (mem gc s)) tu), index := index (mem g1 s)\<rparr>"
    using u1 by (cases "mem g1 s", cases "mem gc s") (simp add: unindexed_def)
  then obtain k where m1: "mem g1 s = (mem gc s)\<lparr>ticks := sint (div64 (idleOut (mem gc s)) tu), index := k\<rparr>"
    by blast
  from assms up have "stream_view gc' s =
      (unindexed (idle_result tu tm (mem gc s)), s \<in> streams g1, events_of s g1)"
    by (auto simp: do_second_def Let_def stream_view_def events_of_def idle_result_def unindexed_def m1
        split: if_splits)
  with r1 e1 show ?thesis by simp
qed

text \<open>
  C5. On the collector tick at which the ticks of a registered, active stream go from 1
  to 0, the stream becomes inactive if and only if its work queue is empty and its posted
  counter is zero; otherwise it stays active with its queue unchanged. In either case its
  ticks are reset to \<^verbatim>\<open>idleOut/tickUnit\<close> and its posted counter to zero, and when it
  becomes inactive a frame of size \<^verbatim>\<open>tickMarker\<close> is put on its queue.
\<close>

theorem do_idle_stream:
  assumes run: "do tickUnit tickMarker gc order1 order2 = Some gc'"
    and reg: "s \<in> streams gc"
    and o1: "s \<in> set order1" "distinct order1" and o2: "s \<in> set order2" "distinct order2"
    and live: "\<not> terminated (mem gc s)" and act: "sessST (mem gc s) = active"
    and one: "ticks (mem gc s) = 1" and cnt: "0 \<le>s posted (mem gc s)"
  shows "(sessST (mem gc' s) = inactive \<longleftrightarrow> workCh (mem gc s) = [] \<and> posted (mem gc s) = 0)
       \<and> (sessST (mem gc' s) \<noteq> inactive \<longrightarrow>
            sessST (mem gc' s) = active \<and> workCh (mem gc' s) = workCh (mem gc s))
       \<and> (sessST (mem gc' s) = inactive \<longrightarrow>
            workCh (mem gc' s) = [\<lparr>ObjName = [], ObjSize = tickMarker\<rparr>])
       \<and> ticks (mem gc' s) = sint (div64 (idleOut (mem gc s)) tickUnit)
       \<and> posted (mem gc' s) = 0
       \<and> s \<in> streams gc'"
proof -
  from run obtain gc1 where l1: "range_streams do_first gc order1 = Some gc1"
    and l2: "range_streams (do_second tickUnit tickMarker) gc1 order2 = Some gc'"
    by (auto simp: do_def split: option.splits)
  have "\<exists>g1 g2. stream_view g1 s = stream_view gc s \<and> do_first g1 s = Some g2
                 \<and> stream_view gc1 s = stream_view g2 s"
    by (rule range_streams_split [where body = do_first, OF _ l1 o1 reg]) (rule do_first_view_other)
  then obtain g1 g2 where v1: "stream_view g1 s = stream_view gc s" and b1: "do_first g1 s = Some g2"
    and v2: "stream_view gc1 s = stream_view g2 s"
    by blast
  from v1 have u1: "unindexed (mem g1 s) = unindexed (mem gc s)" and r1: "s \<in> streams g1"
    using reg by (simp_all add: stream_view_def)
  note f1 = unindexed_eqD [OF u1]
  from b1 f1 live act one have "update g1 s 0 = Some g2" by (simp add: do_first_def)
  from update_view_self [OF this] v2 r1
  have ugc1: "unindexed (mem gc1 s) = unindexed ((mem g1 s)\<lparr>ticks := 0\<rparr>)" and rgc1: "s \<in> streams gc1"
    by (simp_all add: stream_view_def)
  have "\<exists>g3 g4. stream_view g3 s = stream_view gc1 s \<and> do_second tickUnit tickMarker g3 s = Some g4
                 \<and> stream_view gc' s = stream_view g4 s"
    by (rule range_streams_split [where body = "do_second tickUnit tickMarker", OF _ l2 o2 rgc1])
       (rule do_second_view_other)
  then obtain g3 g4 where v3: "stream_view g3 s = stream_view gc1 s"
    and b2: "do_second tickUnit tickMarker g3 s = Some g4"
    and v4: "stream_view gc' s = stream_view g4 s"
    by blast
  from v3 ugc1 rgc1 have u3: "unindexed (mem g3 s) = unindexed ((mem g1 s)\<lparr>ticks := 0\<rparr>)"
    and r3: "s \<in> streams g3"
    by (simp_all add: stream_view_def)
  from unindexed_eqD(1) [OF u3] have "\<not> 0 < ticks (mem g3 s)" by simp
  from do_second_view_self [OF b2 this] v4 r3
  have "unindexed (mem gc' s) = unindexed (idle_result tickUnit tickMarker (mem g3 s))"
    and fin_r: "s \<in> streams gc'"
    by (simp_all add: stream_view_def)
  then have "unindexed (mem gc' s) = idle_result tickUnit tickMarker (unindexed ((mem g1 s)\<lparr>ticks := 0\<rparr>))"
    by (simp add: idle_result_unindexed u3)
  also have "unindexed ((mem g1 s)\<lparr>ticks := 0\<rparr>) = unindexed ((mem gc s)\<lparr>ticks := 0\<rparr>)"
    using u1 by (cases "mem g1 s", cases "mem gc s") (simp add: unindexed_def)
  finally have fin_u: "unindexed (mem gc' s) = unindexed (idle_result tickUnit tickMarker ((mem gc s)\<lparr>ticks := 0\<rparr>))"
    by (simp add: idle_result_unindexed)
  have "sint (posted (mem gc s)) = 0 \<longleftrightarrow> posted (mem gc s) = 0"
    by (rule signed_eq_0_iff)
  then have pos: "0 <s posted (mem gc s) \<longleftrightarrow> posted (mem gc s) \<noteq> 0"
    using cnt by (auto simp: word_sle_eq word_sless_alt)
  from unindexed_eqD [OF fin_u] act pos fin_r show ?thesis
    by (auto simp: idle_result_def Let_def)
qed

lemmas do_eval = do_def do_first_def do_second_def do_terminated_def update_def Fix_def down_def
  up_zero down_loop_stop Less_def Swap_def Len_def set_ticks_def set_index_def Let_def div64_def
  signed_divide_int_def word_sless_alt

text \<open>
  C7, as stated, fails on the order: the queue is closed first, and the callbacks of the
  frames left in it run after that.
\<close>

theorem do_close_order_counterexample:
  "map_option events (do 1000000000 9223372036854775807 gc_dead [''s1''] [])
     = Some [ChanClosed ''s1'', ObjDone ''s1'' frame1 ''unknown reason'']"
  by (simp add: do_eval gc_dead_def stream_dead_def reasonUnknown_def)

lemma do_gc_idle:
  "do 1000000000 9223372036854775807 gc_idle [''s1''] [''s1'']
    = Some (gc_idle\<lparr>mem := (mem gc_idle)(''s1'' := stream_idle\<lparr>ticks := 3, sessST := inactive,
          workCh := [\<lparr>ObjName = [], ObjSize = 9223372036854775807\<rparr>]\<rparr>)\<rparr>)"
  by (simp add: do_eval gc_idle_def stream_idle_def)

lemma do_gc_dead:
  "do 1000000000 9223372036854775807 gc_dead [''s1''] []
    = Some (gc_dead\<lparr>mem := (mem gc_dead)(''s1'' := stream_dead\<lparr>ticks := 0, workCh := [],
          workCh_closed := True, term_err := Some ''unknown reason''\<rparr>),
        streams := {}, events := [ChanClosed ''s1'', ObjDone ''s1'' frame1 ''unknown reason'']\<rparr>)"
  by (simp add: do_eval gc_dead_def stream_dead_def reasonUnknown_def)

theorem do_terminated_stream_witness:
  "map_option (\<lambda>g. (ticks (mem g ''s1''), ''s1'' \<in> streams g, workCh (mem g ''s1''),
                      workCh_closed (mem g ''s1''), term_err (mem g ''s1''), events_of ''s1'' g))
     (do 1000000000 9223372036854775807 gc_dead [''s1''] [])
   = Some (0, False, [], True, Some ''unknown reason'',
           [ChanClosed ''s1'', ObjDone ''s1'' frame1 ''unknown reason''])"
proof -
  have reg: "''s1'' \<in> streams gc_dead" by (simp add: gc_dead_def)
  have ord: "''s1'' \<in> set [''s1'']" "distinct [''s1'']" by simp_all
  have dead: "terminated (mem gc_dead ''s1'')" by (simp add: gc_dead_def stream_dead_def)
  have old: "ticks (mem gc_dead ''s1'') = 1" "workCh (mem gc_dead ''s1'') = [frame1]"
    "stored_error (mem gc_dead ''s1'') = ''unknown reason''" "events_of ''s1'' gc_dead = []"
    by (simp_all add: gc_dead_def stream_dead_def stored_error_def reasonUnknown_def events_of_def)
  from do_terminated_stream [OF do_gc_dead reg ord dead] show ?thesis
    unfolding old by (simp add: do_gc_dead)
qed

theorem do_idle_stream_witness:
  "map_option (\<lambda>g. (sessST (mem g ''s1''), workCh (mem g ''s1''), ticks (mem g ''s1''), posted (mem g ''s1'')))
     (do 1000000000 9223372036854775807 gc_idle [''s1''] [''s1''])
   = Some (inactive, [\<lparr>ObjName = [], ObjSize = 9223372036854775807\<rparr>], 3, 0)"
proof -
  have reg: "''s1'' \<in> streams gc_idle" by (simp add: gc_idle_def)
  have ord: "''s1'' \<in> set [''s1'']" "distinct [''s1'']" by simp_all
  have live: "\<not> terminated (mem gc_idle ''s1'')" and act: "sessST (mem gc_idle ''s1'') = active"
    and one: "ticks (mem gc_idle ''s1'') = 1" and cnt: "0 \<le>s posted (mem gc_idle ''s1'')"
    by (simp_all add: gc_idle_def stream_idle_def)
  have old: "workCh (mem gc_idle ''s1'') = []" "posted (mem gc_idle ''s1'') = 0"
    "sint (div64 (idleOut (mem gc_idle ''s1'')) 1000000000) = 3"
    by (simp_all add: gc_idle_def stream_idle_def div64_def signed_divide_int_def)
  from do_idle_stream [OF do_gc_idle reg ord ord live act one cnt] show ?thesis
    unfolding old by (simp add: do_gc_idle)
qed

lemma parent_le: "(k - 1) div 2 \<le> (k::nat)"
  by arith

lemma parent_self: "(k - 1) div 2 = k \<longleftrightarrow> k = (0::nat)"
  by arith

lemma parent_fix: "(c - 1) div 2 = l \<Longrightarrow> c \<le> l \<Longrightarrow> l = (0::nat)"
  by arith

lemma parent_less: "0 < k \<Longrightarrow> (k - 1) div 2 < (k::nat)"
  by arith

lemma parent_child: "(c - 1) div 2 = i \<Longrightarrow> c \<noteq> i \<Longrightarrow> c = 2 * i + 1 \<or> c = 2 * i + 2" for c :: nat
  by arith

lemma is_heap_up_inv:
  assumes "is_heap ks n" and "j < n"
  shows "up_inv ks j n"
proof -
  have "ks ! ((j - 1) div 2) \<le> ks ! c" if "c < n" "(c - 1) div 2 = j" for c
  proof -
    have "ks ! ((j - 1) div 2) \<le> ks ! j" using assms by (simp add: is_heap_def)
    also have "ks ! j \<le> ks ! c" using assms(1) that by (auto simp: is_heap_def)
    finally show ?thesis .
  qed
  with assms(1) show ?thesis by (simp add: up_inv_def is_heap_def)
qed

lemma nth_swap:
  "i < length ks \<Longrightarrow> j < length ks \<Longrightarrow> k < length ks \<Longrightarrow>
   ks[i := ks ! j, j := ks ! i] ! k = (if k = j then ks ! i else if k = i then ks ! j else ks ! k)"
  by (simp add: nth_list_update)

lemma up_inv_done:
  assumes "up_inv ks j n" and "j = 0 \<or> ks ! ((j - 1) div 2) \<le> ks ! j"
  shows "is_heap ks n"
  unfolding is_heap_def
proof (intro allI impI)
  fix k assume "k < n"
  show "ks ! ((k - 1) div 2) \<le> ks ! k"
  proof (cases "k = j")
    case True
    with assms(2) show ?thesis by auto
  next
    case False
    with assms(1) \<open>k < n\<close> show ?thesis by (simp add: up_inv_def)
  qed
qed

lemma up_inv_swap:
  assumes inv: "up_inv ks j n" and j: "0 < j" "j < n" "n \<le> length ks"
    and lt: "ks ! j < ks ! ((j - 1) div 2)"
  shows "up_inv (ks[(j - 1) div 2 := ks ! j, j := ks ! ((j - 1) div 2)]) ((j - 1) div 2) n"
proof -
  define p where "p = (j - 1) div 2"
  define ks' where "ks' = ks[p := ks ! j, j := ks ! p]"
  have pj: "p < j" unfolding p_def using j(1) by (rule parent_less)
  have len: "p < length ks" "j < length ks" using pj j by simp_all
  have nth_j: "ks' ! j = ks ! p" and nth_p: "ks' ! p = ks ! j"
    using len pj by (simp_all add: ks'_def)
  have nth_o: "ks' ! k = ks ! k" if "k \<noteq> j" "k \<noteq> p" for k
    using that by (simp add: ks'_def)
  have lt': "ks ! j < ks ! p" using lt by (simp add: p_def)
  have edge: "ks ! ((k - 1) div 2) \<le> ks ! k" if "k < n" "k \<noteq> j" for k
    using inv that by (simp add: up_inv_def)
  have grand: "ks ! p \<le> ks ! c" if "c < n" "(c - 1) div 2 = j" for c
    using inv that by (simp add: up_inv_def p_def)
  have a: "ks' ! ((k - 1) div 2) \<le> ks' ! k" if k: "k < n" "k \<noteq> p" for k
  proof -
    consider (kj) "k = j" | (kp) "k \<noteq> j" "(k - 1) div 2 = p"
      | (kc) "k \<noteq> j" "(k - 1) div 2 = j" | (ko) "k \<noteq> j" "(k - 1) div 2 \<noteq> p" "(k - 1) div 2 \<noteq> j"
      by blast
    then show ?thesis
    proof cases
      case kj
      then have "ks' ! ((k - 1) div 2) = ks ! j" "ks' ! k = ks ! p"
        using nth_p nth_j by (simp_all add: p_def)
      with lt' show ?thesis by simp
    next
      case kp
      then have "ks' ! ((k - 1) div 2) = ks ! j" "ks' ! k = ks ! k"
        using nth_p nth_o [of k] k(2) by simp_all
      moreover have "ks ! p \<le> ks ! k" using edge [OF k(1) kp(1)] kp(2) by simp
      ultimately show ?thesis using lt' by simp
    next
      case kc
      then have "ks' ! ((k - 1) div 2) = ks ! p" "ks' ! k = ks ! k"
        using nth_j nth_o [of k] k(2) by simp_all
      with grand [OF k(1) kc(2)] show ?thesis by simp
    next
      case ko
      then have "ks' ! ((k - 1) div 2) = ks ! ((k - 1) div 2)" "ks' ! k = ks ! k"
        using nth_o [of k] nth_o [of "(k - 1) div 2"] k(2) by simp_all
      with edge [OF k(1) ko(1)] show ?thesis by simp
    qed
  qed
  have pn: "p < n" using pj j(2) by simp
  have ppj: "(p - 1) div 2 \<noteq> j" using pj parent_le [of p] by simp
  have pp_val: "ks' ! ((p - 1) div 2) \<le> ks ! p"
  proof (cases "(p - 1) div 2 = p")
    case True
    have "ks' ! ((p - 1) div 2) = ks ! j" unfolding True by (rule nth_p)
    with lt' show ?thesis by simp
  next
    case False
    then have "ks' ! ((p - 1) div 2) = ks ! ((p - 1) div 2)" using nth_o ppj by simp
    moreover have "ks ! ((p - 1) div 2) \<le> ks ! p" using edge [OF pn] pj by simp
    ultimately show ?thesis by simp
  qed
  have b: "ks' ! ((p - 1) div 2) \<le> ks' ! c" if c: "c < n" "(c - 1) div 2 = p" for c
  proof -
    consider (cj) "c = j" | (cp) "c = p" | (co) "c \<noteq> j" "c \<noteq> p" by blast
    then show ?thesis
    proof cases
      case cj
      with pp_val nth_j show ?thesis by simp
    next
      case cp
      with c(2) have "(p - 1) div 2 = p" by simp
      then have "ks' ! ((p - 1) div 2) = ks' ! p" by (simp only:)
      with cp show ?thesis by simp
    next
      case co
      then have "ks' ! c = ks ! c" using nth_o by simp
      moreover have "ks ! p \<le> ks ! c" using edge [OF c(1) co(1)] c(2) by simp
      ultimately show ?thesis using pp_val by simp
    qed
  qed
  from a b have "up_inv ks' p n" unfolding up_inv_def by blast
  then show ?thesis by (simp add: ks'_def p_def)
qed

lemma down_inv_done:
  assumes "down_inv ks i n" and "\<forall>c<n. (c - 1) div 2 = i \<longrightarrow> c \<noteq> i \<longrightarrow> ks ! i \<le> ks ! c"
  shows "is_heap ks n"
  unfolding is_heap_def
proof (intro allI impI)
  fix k assume k: "k < n"
  show "ks ! ((k - 1) div 2) \<le> ks ! k"
  proof (cases "(k - 1) div 2 = i")
    case False
    with assms(1) k show ?thesis by (simp add: down_inv_def)
  next
    case True
    show ?thesis
    proof (cases "k = i")
      case True
      with \<open>(k - 1) div 2 = i\<close> have "(k - 1) div 2 = k" by simp
      then have "ks ! ((k - 1) div 2) = ks ! k" by (simp only:)
      then show ?thesis by simp
    next
      case False
      with assms(2) k True show ?thesis by simp
    qed
  qed
qed

lemma down_inv_swap:
  assumes inv: "down_inv ks i n" and j: "j < n" "n \<le> length ks" "(j - 1) div 2 = i" "j \<noteq> i"
    and lt: "ks ! j < ks ! i"
    and least: "\<forall>c<n. (c - 1) div 2 = i \<longrightarrow> c \<noteq> i \<longrightarrow> ks ! j \<le> ks ! c"
  shows "down_inv (ks[i := ks ! j, j := ks ! i]) j n"
proof -
  define ks' where "ks' = ks[i := ks ! j, j := ks ! i]"
  have ij: "i < j" using j(3,4) parent_le [of j] by simp
  have len: "i < length ks" "j < length ks" using ij j by simp_all
  have nth_j: "ks' ! j = ks ! i" and nth_i: "ks' ! i = ks ! j"
    using len ij by (simp_all add: ks'_def)
  have nth_o: "ks' ! k = ks ! k" if "k \<noteq> j" "k \<noteq> i" for k
    using that by (simp add: ks'_def)
  have edge: "ks ! ((k - 1) div 2) \<le> ks ! k" if "k < n" "(k - 1) div 2 \<noteq> i" for k
    using inv that by (simp add: down_inv_def)
  have grand: "ks ! ((i - 1) div 2) \<le> ks ! c" if "c < n" "(c - 1) div 2 = i" "i \<noteq> 0" for c
    using inv that by (auto simp: down_inv_def)
  have a: "ks' ! ((k - 1) div 2) \<le> ks' ! k" if k: "k < n" "(k - 1) div 2 \<noteq> j" for k
  proof -
    consider (kj) "k = j" | (ki) "k = i" | (ks) "k \<noteq> j" "k \<noteq> i" "(k - 1) div 2 = i"
      | (ko) "k \<noteq> j" "k \<noteq> i" "(k - 1) div 2 \<noteq> i"
      by blast
    then show ?thesis
    proof cases
      case kj
      have "ks' ! ((k - 1) div 2) = ks ! j" unfolding kj j(3) by (rule nth_i)
      moreover have "ks' ! k = ks ! i" unfolding kj by (rule nth_j)
      ultimately show ?thesis using lt by simp
    next
      case ki
      show ?thesis
      proof (cases "(i - 1) div 2 = i")
        case True
        then have "ks' ! ((i - 1) div 2) = ks' ! i" by (simp only:)
        then show ?thesis unfolding ki by simp
      next
        case False
        then have i0: "i \<noteq> 0" by (simp add: parent_self)
        have "(i - 1) div 2 \<noteq> j" using ij parent_le [of i] by simp
        with False have "ks' ! ((i - 1) div 2) = ks ! ((i - 1) div 2)" using nth_o by simp
        moreover have "ks ! ((i - 1) div 2) \<le> ks ! j" using grand [OF j(1) j(3) i0] .
        ultimately show ?thesis unfolding ki using nth_i by simp
      qed
    next
      case ks
      have "ks' ! ((k - 1) div 2) = ks ! j" unfolding ks(3) by (rule nth_i)
      moreover have "ks' ! k = ks ! k" using nth_o ks by simp
      moreover have "ks ! j \<le> ks ! k" using least k(1) ks by simp
      ultimately show ?thesis by simp
    next
      case ko
      then have "ks' ! ((k - 1) div 2) = ks ! ((k - 1) div 2)" "ks' ! k = ks ! k"
        using nth_o [of k] nth_o [of "(k - 1) div 2"] k(2) by simp_all
      with edge [OF k(1) ko(3)] show ?thesis by simp
    qed
  qed
  have b: "j = 0 \<or> ks' ! ((j - 1) div 2) \<le> ks' ! c" if c: "c < n" "(c - 1) div 2 = j" for c
  proof -
    have "c \<noteq> j" using c(2) ij by (auto simp: parent_self)
    moreover have "j \<le> c" using c(2) parent_le [of c] by simp
    ultimately have ci: "c \<noteq> i" "c \<noteq> j" using ij by simp_all
    have "ks' ! ((j - 1) div 2) = ks ! j" unfolding j(3) by (rule nth_i)
    moreover have "ks' ! c = ks ! c" using nth_o ci by simp
    moreover have "ks ! j \<le> ks ! c" using edge [OF c(1)] c(2) ij by simp
    ultimately show ?thesis by simp
  qed
  from a b have "down_inv ks' j n" unfolding down_inv_def by blast
  then show ?thesis by (simp add: ks'_def)
qed

lemma except_inv_down:
  assumes "except_inv ks i n" and "i = 0 \<or> ks ! ((i - 1) div 2) \<le> ks ! i"
  shows "down_inv ks i n"
proof -
  have "ks ! ((k - 1) div 2) \<le> ks ! k" if k: "k < n" "(k - 1) div 2 \<noteq> i" for k
  proof (cases "k = i")
    case False
    with assms(1) k show ?thesis by (simp add: except_inv_def)
  next
    case True
    with k(2) have "i \<noteq> 0" by auto
    with assms(2) True show ?thesis by simp
  qed
  with assms(1) show ?thesis by (simp add: down_inv_def except_inv_def)
qed

lemma except_inv_up:
  assumes "except_inv ks i n"
    and "\<forall>c<n. (c - 1) div 2 = i \<longrightarrow> c \<noteq> i \<longrightarrow> ks ! i \<le> ks ! c"
  shows "up_inv ks i n"
proof -
  have a: "ks ! ((k - 1) div 2) \<le> ks ! k" if k: "k < n" "k \<noteq> i" for k
  proof (cases "(k - 1) div 2 = i")
    case False
    with assms(1) k show ?thesis by (simp add: except_inv_def)
  next
    case True
    with assms(2) k show ?thesis by simp
  qed
  have b: "ks ! ((i - 1) div 2) \<le> ks ! c" if c: "c < n" "(c - 1) div 2 = i" for c
  proof (cases "i = 0")
    case False
    with assms(1) c show ?thesis by (auto simp: except_inv_def)
  next
    case True
    then have pi: "ks ! ((i - 1) div 2) = ks ! i" by simp
    show ?thesis
    proof (cases "c = i")
      case True
      with pi show ?thesis by simp
    next
      case False
      with assms(2) c pi show ?thesis by simp
    qed
  qed
  from a b show ?thesis unfolding up_inv_def by blast
qed

lemma is_heap_except:
  assumes "is_heap ks n" and "i < n"
  shows "except_inv (ks[i := t]) i n"
proof -
  have a: "ks[i := t] ! ((k - 1) div 2) \<le> ks[i := t] ! k" if "k < n" "k \<noteq> i" "(k - 1) div 2 \<noteq> i" for k
    using assms(1) that by (simp add: is_heap_def)
  have b: "i = 0 \<or> ks[i := t] ! ((i - 1) div 2) \<le> ks[i := t] ! c" if c: "c < n" "(c - 1) div 2 = i" for c
  proof (cases "i = 0")
    case True
    then show ?thesis by simp
  next
    case False
    then have ne: "(i - 1) div 2 \<noteq> i" by (simp add: parent_self)
    have ci: "c \<noteq> i" using c(2) False by (auto simp: parent_self)
    have "ks ! ((i - 1) div 2) \<le> ks ! i" using assms by (simp add: is_heap_def)
    also have "ks ! i \<le> ks ! c" using assms(1) c by (auto simp: is_heap_def)
    finally show ?thesis using ne ci by simp
  qed
  from a b show ?thesis unfolding except_inv_def by blast
qed

subsection \<open>The heap operations keep the heap in order\<close>

lemma keys_length [simp]: "length (keys gc) = length (heap gc)"
  by (simp add: keys_def)

lemma keys_nth: "i < length (heap gc) \<Longrightarrow> keys gc ! i = ticks (mem gc (heap gc ! i))"
  by (simp add: keys_def)

lemma heap_frame_ticks: "heap_frame gc gc' \<Longrightarrow> ticks (mem gc' s) = ticks (mem gc s)"
proof -
  assume "heap_frame gc gc'"
  then have "unindexed (mem gc' s) = unindexed (mem gc s)"
    by (simp add: heap_frame_def fun_eq_iff)
  then show ?thesis by (rule unindexed_eqD)
qed

lemma Less_keys:
  "Less gc i j = Some b \<Longrightarrow>
     i < length (heap gc) \<and> j < length (heap gc) \<and> b = (keys gc ! i < keys gc ! j)"
  by (auto simp: Less_def Len_def keys_nth split: if_splits)

lemma Swap_heap:
  "Swap gc i j = Some gc' \<Longrightarrow>
     i < length (heap gc) \<and> j < length (heap gc)
     \<and> heap gc' = (heap gc)[i := heap gc ! j, j := heap gc ! i]"
  by (auto simp: Swap_def Len_def Let_def set_index_def split: if_splits)

lemma Swap_keys:
  assumes "Swap gc i j = Some gc'"
  shows "keys gc' = (keys gc)[i := keys gc ! j, j := keys gc ! i]"
proof -
  from Swap_heap [OF assms] have i: "i < length (heap gc)" and j: "j < length (heap gc)"
    and h: "heap gc' = (heap gc)[i := heap gc ! j, j := heap gc ! i]" by simp_all
  have t: "ticks (mem gc' s) = ticks (mem gc s)" for s
    using Swap_frame [OF assms] by (rule heap_frame_ticks)
  show ?thesis
    unfolding keys_def h using i j by (simp add: t map_update)
qed

lemma down_child_least:
  assumes "down_child gc i n = Some j" and "2 * i + 1 < n"
  shows "\<forall>c<n. (c - 1) div 2 = i \<longrightarrow> c \<noteq> i \<longrightarrow> keys gc ! j \<le> keys gc ! c"
proof (intro allI impI)
  fix c assume c: "c < n" "(c - 1) div 2 = i" "c \<noteq> i"
  from parent_child [OF c(2,3)] consider "c = 2 * i + 1" | "c = 2 * i + 2" by blast
  then show "keys gc ! j \<le> keys gc ! c"
  proof cases
    case 1
    with assms show ?thesis
      by (auto simp: down_child_def split: option.splits if_splits dest!: Less_keys)
  next
    case 2
    with assms c(1) show ?thesis
      by (auto simp: down_child_def split: option.splits if_splits dest!: Less_keys)
  qed
qed

lemma up_heap:
  "up gc j = Some gc' \<Longrightarrow> j < n \<Longrightarrow> n \<le> length (heap gc) \<Longrightarrow> up_inv (keys gc) j n \<Longrightarrow>
     is_heap (keys gc') n \<and> (\<forall>m\<ge>n. heap gc' ! m = heap gc ! m)"
proof (induction j arbitrary: gc rule: less_induct)
  case (less j)
  from less.prems(1) show ?case
  proof (cases rule: up_cases)
    case root
    with less.prems(4) show ?thesis by (auto intro: up_inv_done)
  next
    case stay
    from Less_keys [OF stay(2)] have "keys gc ! ((j - 1) div 2) \<le> keys gc ! j" by simp
    with less.prems(4) stay(3) show ?thesis by (auto intro: up_inv_done)
  next
    case (swap gc1)
    let ?p = "(j - 1) div 2"
    have pj: "?p < j" using swap(1) by (rule parent_less)
    from Less_keys [OF swap(2)] have lt: "keys gc ! j < keys gc ! ?p" by simp
    have k1: "keys gc1 = (keys gc)[?p := keys gc ! j, j := keys gc ! ?p]"
      using swap(3) by (rule Swap_keys)
    have h1: "heap gc1 = (heap gc)[?p := heap gc ! j, j := heap gc ! ?p]"
      using Swap_heap [OF swap(3)] by simp
    have "up_inv (keys gc1) ?p n"
      unfolding k1 using less.prems(4) swap(1) less.prems(2) _ lt
      by (rule up_inv_swap) (simp add: less.prems(3))
    moreover have "?p < n" using pj less.prems(2) by simp
    moreover have "n \<le> length (heap gc1)" using less.prems(3) h1 by simp
    ultimately have "is_heap (keys gc') n \<and> (\<forall>m\<ge>n. heap gc' ! m = heap gc1 ! m)"
      using less.IH [OF pj swap(4)] by blast
    moreover have "heap gc1 ! m = heap gc ! m" if "n \<le> m" for m
      using that pj less.prems(2) by (simp add: h1)
    ultimately show ?thesis by simp
  qed
qed

lemma down_loop_heap:
  "down_loop gc i n = Some (gc', k) \<Longrightarrow> n \<le> length (heap gc) \<Longrightarrow> down_inv (keys gc) i n \<Longrightarrow>
     is_heap (keys gc') n \<and> (\<forall>m\<ge>n. heap gc' ! m = heap gc ! m)"
proof (induction "n - i" arbitrary: gc i rule: less_induct)
  case less
  from less.prems(1) show ?case
  proof (cases rule: down_loop_cases)
    case leaf
    have "\<forall>c<n. (c - 1) div 2 = i \<longrightarrow> c \<noteq> i \<longrightarrow> keys gc ! i \<le> keys gc ! c"
    proof (intro allI impI)
      fix c assume c: "c < n" "(c - 1) div 2 = i" "c \<noteq> i"
      from parent_child [OF c(2,3)] c(1) leaf(1) have False by auto
      then show "keys gc ! i \<le> keys gc ! c" ..
    qed
    with less.prems(3) leaf(2) show ?thesis by (auto intro: down_inv_done)
  next
    case (stay j)
    from Less_keys [OF stay(3)] have ij: "keys gc ! i \<le> keys gc ! j" by simp
    have "\<forall>c<n. (c - 1) div 2 = i \<longrightarrow> c \<noteq> i \<longrightarrow> keys gc ! i \<le> keys gc ! c"
    proof (intro allI impI)
      fix c assume "c < n" "(c - 1) div 2 = i" "c \<noteq> i"
      with down_child_least [OF stay(2,1)] have "keys gc ! j \<le> keys gc ! c" by blast
      with ij show "keys gc ! i \<le> keys gc ! c" by simp
    qed
    with less.prems(3) stay(4) show ?thesis by (auto intro: down_inv_done)
  next
    case (swap j gc1)
    from down_child_range [OF swap(2,1)]
    have ij: "i < j" "j < n" and ch: "j = 2 * i + 1 \<or> j = 2 * i + 2" by simp_all
    have par: "(j - 1) div 2 = i" using ch by auto
    from Less_keys [OF swap(3)] have lt: "keys gc ! j < keys gc ! i" by simp
    have k1: "keys gc1 = (keys gc)[i := keys gc ! j, j := keys gc ! i]"
      using swap(4) by (rule Swap_keys)
    have h1: "heap gc1 = (heap gc)[i := heap gc ! j, j := heap gc ! i]"
      using Swap_heap [OF swap(4)] by simp
    have "down_inv (keys gc1) j n"
      unfolding k1 using less.prems(3) ij(2) _ par _ lt down_child_least [OF swap(2,1)]
      by (rule down_inv_swap) (use ij less.prems(2) in simp_all)
    moreover have "n \<le> length (heap gc1)" using less.prems(2) h1 by simp
    moreover have "n - j < n - i" using ij by arith
    ultimately have "is_heap (keys gc') n \<and> (\<forall>m\<ge>n. heap gc' ! m = heap gc1 ! m)"
      using less.hyps [OF _ swap(5)] by blast
    moreover have "heap gc1 ! m = heap gc ! m" if "n \<le> m" for m
      using that ij by (simp add: h1)
    ultimately show ?thesis by simp
  qed
qed

lemma sift_heap:
  assumes n: "n \<le> length (heap gc)" and i: "i < n" and ex: "except_inv (keys gc) i n"
    and dn: "down gc i n = Some (gc1, moved)"
    and upw: "(if \<not> moved then up gc1 i else Some gc1) = Some gc'"
  shows "is_heap (keys gc') n \<and> (\<forall>m\<ge>n. heap gc' ! m = heap gc ! m)"
proof -
  from dn obtain k where dl: "down_loop gc i n = Some (gc1, k)" and mv: "moved = (i < k)"
    by (auto simp: down_def split: option.splits)
  from dl show ?thesis
  proof (cases rule: down_loop_cases)
    case leaf
    have ch: "\<forall>c<n. (c - 1) div 2 = i \<longrightarrow> c \<noteq> i \<longrightarrow> keys gc ! i \<le> keys gc ! c"
    proof (intro allI impI)
      fix c assume c: "c < n" "(c - 1) div 2 = i" "c \<noteq> i"
      from parent_child [OF c(2,3)] c(1) leaf(1) have False by auto
      then show "keys gc ! i \<le> keys gc ! c" ..
    qed
    from leaf mv upw have "up gc i = Some gc'" by simp
    from up_heap [OF this i n except_inv_up [OF ex ch]] show ?thesis .
  next
    case (stay j)
    from Less_keys [OF stay(3)] have ij: "keys gc ! i \<le> keys gc ! j" by simp
    have ch: "\<forall>c<n. (c - 1) div 2 = i \<longrightarrow> c \<noteq> i \<longrightarrow> keys gc ! i \<le> keys gc ! c"
    proof (intro allI impI)
      fix c assume "c < n" "(c - 1) div 2 = i" "c \<noteq> i"
      with down_child_least [OF stay(2,1)] have "keys gc ! j \<le> keys gc ! c" by blast
      with ij show "keys gc ! i \<le> keys gc ! c" by simp
    qed
    from stay mv upw have "up gc i = Some gc'" by simp
    from up_heap [OF this i n except_inv_up [OF ex ch]] show ?thesis .
  next
    case (swap j gc2)
    from down_child_range [OF swap(2,1)]
    have ij: "i < j" "j < n" and ch: "j = 2 * i + 1 \<or> j = 2 * i + 2" by simp_all
    have par: "(j - 1) div 2 = i" using ch by auto
    from down_loop_frame [OF swap(5)] ij have "i < k" by simp
    with mv upw have g: "gc' = gc1" by simp
    from Less_keys [OF swap(3)] have lt: "keys gc ! j < keys gc ! i" by simp
    have "i = 0 \<or> keys gc ! ((i - 1) div 2) \<le> keys gc ! i"
    proof (cases "i = 0")
      case False
      with ex ij(2) par have "keys gc ! ((i - 1) div 2) \<le> keys gc ! j"
        by (auto simp: except_inv_def)
      with lt show ?thesis by simp
    qed simp
    with ex have "down_inv (keys gc) i n" by (rule except_inv_down)
    from down_loop_heap [OF dl n this] g show ?thesis by simp
  qed
qed

subsection \<open>The heap operations keep the indices\<close>

lemma index_inv_distinct: "index_inv gc \<Longrightarrow> distinct (heap gc)"
  unfolding index_inv_def distinct_conv_nth
  by (intro allI impI) (metis)

lemma index_inv_pos: "index_inv gc \<Longrightarrow> s \<in> set (heap gc) \<Longrightarrow>
    index (mem gc s) < length (heap gc) \<and> heap gc ! index (mem gc s) = s"
  by (auto simp: index_inv_def in_set_conv_nth)

lemma Swap_index_inv:
  assumes inv: "index_inv gc" and sw: "Swap gc i j = Some gc'"
  shows "index_inv gc'"
proof -
  let ?h = "heap gc"
  from Swap_heap [OF sw] have i: "i < length ?h" and j: "j < length ?h"
    and h': "heap gc' = ?h[i := ?h ! j, j := ?h ! i]" by simp_all
  have d: "distinct ?h" using inv by (rule index_inv_distinct)
  have neq: "?h ! a \<noteq> ?h ! b" if "a < length ?h" "b < length ?h" "a \<noteq> b" for a b
    using d that by (simp add: nth_eq_iff_index_eq)
  have hj: "heap gc' ! j = ?h ! i" using h' j by simp
  have hi: "heap gc' ! i = ?h ! j" using h' i j by (cases "i = j") simp_all
  have m': "mem gc' = ((mem gc)(?h ! j := (mem gc (?h ! j))\<lparr>index := i\<rparr>))
                        (?h ! i := (((mem gc)(?h ! j := (mem gc (?h ! j))\<lparr>index := i\<rparr>)) (?h ! i))\<lparr>index := j\<rparr>)"
    using sw i j hi hj by (auto simp: Swap_def Len_def Let_def set_index_def h' split: if_splits)
  show ?thesis
    unfolding index_inv_def
  proof (intro allI impI)
    fix k assume "k < length (heap gc')"
    then have k: "k < length ?h" by (simp add: h')
    consider (kj) "k = j" | (ki) "k = i" "k \<noteq> j" | (ko) "k \<noteq> i" "k \<noteq> j" by blast
    then show "index (mem gc' (heap gc' ! k)) = k"
    proof cases
      case kj
      then show ?thesis by (simp add: hj m')
    next
      case ki
      then have "?h ! j \<noteq> ?h ! i" using neq [OF j i] by simp
      with ki show ?thesis by (simp add: hi m')
    next
      case ko
      then have "heap gc' ! k = ?h ! k" by (simp add: h')
      moreover have "?h ! k \<noteq> ?h ! i" "?h ! k \<noteq> ?h ! j" using neq [OF k] i j ko by simp_all
      moreover have "index (mem gc (?h ! k)) = k" using inv k by (simp add: index_inv_def)
      ultimately show ?thesis by (simp add: m')
    qed
  qed
qed

lemma up_index_inv: "up gc j = Some gc' \<Longrightarrow> index_inv gc \<Longrightarrow> index_inv gc'"
proof (induction j arbitrary: gc rule: less_induct)
  case (less j)
  from less.prems(1) show ?case
  proof (cases rule: up_cases)
    case (swap gc1)
    have "(j - 1) div 2 < j" using swap(1) by (rule parent_less)
    from less.IH [OF this swap(4) Swap_index_inv [OF less.prems(2) swap(3)]] show ?thesis .
  qed (use less.prems(2) in simp_all)
qed

lemma down_loop_index_inv: "down_loop gc i n = Some (gc', k) \<Longrightarrow> index_inv gc \<Longrightarrow> index_inv gc'"
proof (induction "n - i" arbitrary: gc i rule: less_induct)
  case less
  from less.prems(1) show ?case
  proof (cases rule: down_loop_cases)
    case (swap j gc1)
    from down_child_range [OF swap(2,1)] have "n - j < n - i" by arith
    from less.hyps [OF this swap(5) Swap_index_inv [OF less.prems(2) swap(4)]] show ?thesis .
  qed (use less.prems(2) in simp_all)
qed

lemma Fix_index_inv: "Fix gc i = Some gc' \<Longrightarrow> index_inv gc \<Longrightarrow> index_inv gc'"
  by (auto simp: Fix_def down_def split: option.splits if_splits prod.splits
      dest: down_loop_index_inv up_index_inv)

lemma Fix_heap:
  assumes "Fix gc i = Some gc'" and "i < length (heap gc)"
    and "except_inv (keys gc) i (length (heap gc))"
  shows "is_heap (keys gc') (length (heap gc'))"
proof -
  from assms(1) obtain gc1 moved where dn: "down gc i (length (heap gc)) = Some (gc1, moved)"
    and upw: "(if \<not> moved then up gc1 i else Some gc1) = Some gc'"
    by (auto simp: Fix_def Len_def split: option.splits prod.splits)
  from sift_heap [OF order_refl assms(2,3) dn upw] have "is_heap (keys gc') (length (heap gc))" by simp
  moreover have "length (heap gc') = length (heap gc)"
    using Fix_frame [OF assms(1)] by (simp add: heap_frame_def)
  ultimately show ?thesis by simp
qed

lemma Fix_out_of_range:
  assumes "Fix gc i = Some gc'" and "length (heap gc) \<le> i"
  shows "gc' = gc"
proof -
  have "down_loop gc i (Len gc) = Some (gc, i)"
    using assms(2) by (intro down_loop_stop) (simp add: Len_def)
  with assms(1) have u: "up gc i = Some gc'" by (simp add: Fix_def down_def)
  then show ?thesis
  proof (cases rule: up_cases)
    case root
    then show ?thesis by simp
  next
    case stay
    from Less_keys [OF stay(2)] assms(2) show ?thesis by simp
  next
    case (swap gc1)
    from Less_keys [OF swap(2)] assms(2) show ?thesis by simp
  qed
qed

subsection \<open>The collector's operations keep the invariants\<close>

lemma except_inv_cong:
  assumes "except_inv ks i n" and "\<forall>k<n. ks' ! k = ks ! k"
  shows "except_inv ks' i n"
proof -
  have p: "(k - 1) div 2 < n" if "k < n" for k
    using that parent_le [of k] by simp
  have eq: "ks' ! k = ks ! k" "ks' ! ((k - 1) div 2) = ks ! ((k - 1) div 2)" if "k < n" for k
    using assms(2) that p [OF that] by simp_all
  have pi: "ks' ! ((i - 1) div 2) = ks ! ((i - 1) div 2)" if "c < n" "(c - 1) div 2 = i" for c
    using eq(2) [OF that(1)] that(2) parent_le [of i] p [OF that(1)] assms(2) by simp
  show ?thesis
    unfolding except_inv_def
  proof (intro conjI allI impI)
    fix k assume "k < n" "k \<noteq> i \<and> (k - 1) div 2 \<noteq> i"
    with assms(1) eq [of k] show "ks' ! ((k - 1) div 2) \<le> ks' ! k"
      by (simp add: except_inv_def)
  next
    fix c assume c: "c < n" "(c - 1) div 2 = i"
    with assms(1) have "i = 0 \<or> ks ! ((i - 1) div 2) \<le> ks ! c" by (simp add: except_inv_def)
    with pi [OF c] eq(1) [OF c(1)] show "i = 0 \<or> ks' ! ((i - 1) div 2) \<le> ks' ! c" by simp
  qed
qed

lemma is_heap_less: "is_heap ks n \<Longrightarrow> m \<le> n \<Longrightarrow> is_heap ks m"
  by (simp add: is_heap_def)

lemma is_heap_cong: "is_heap ks n \<Longrightarrow> \<forall>k<n. ks' ! k = ks ! k \<Longrightarrow> is_heap ks' n"
proof -
  assume h: "is_heap ks n" and eq: "\<forall>k<n. ks' ! k = ks ! k"
  have "ks' ! ((k - 1) div 2) \<le> ks' ! k" if "k < n" for k
  proof -
    have "(k - 1) div 2 < n" using that parent_le [of k] by simp
    with eq that h show ?thesis by (simp add: is_heap_def)
  qed
  then show ?thesis by (simp add: is_heap_def)
qed

lemma set_ticks_index_inv: "index_inv (set_ticks s t gc) = index_inv gc"
proof -
  have "index (mem (set_ticks s t gc) l) = index (mem gc l)" for l
    by (simp add: set_ticks_def)
  moreover have "heap (set_ticks s t gc) = heap gc" by (simp add: set_ticks_def)
  ultimately show ?thesis by (simp add: index_inv_def)
qed

lemma set_ticks_keys_notin: "s \<notin> set (heap gc) \<Longrightarrow> keys (set_ticks s t gc) = keys gc"
  by (auto simp: keys_def set_ticks_def)

lemma set_ticks_keys_in:
  assumes "index_inv gc" and "s \<in> set (heap gc)"
  shows "keys (set_ticks s t gc) = (keys gc)[index (mem gc s) := t]"
proof (rule nth_equalityI)
  show "length (keys (set_ticks s t gc)) = length ((keys gc)[index (mem gc s) := t])"
    by (simp add: keys_def set_ticks_def)
next
  fix k assume "k < length (keys (set_ticks s t gc))"
  then have k: "k < length (heap gc)" by (simp add: keys_def set_ticks_def)
  from index_inv_pos [OF assms] have pos: "index (mem gc s) < length (heap gc)"
    "heap gc ! index (mem gc s) = s" by simp_all
  have "heap gc ! k = s \<longleftrightarrow> k = index (mem gc s)"
    using assms(1) k pos by (auto simp: index_inv_def)
  then show "keys (set_ticks s t gc) ! k = (keys gc)[index (mem gc s) := t] ! k"
    using k by (auto simp: keys_def set_ticks_def nth_list_update)
qed

lemma update_inv:
  assumes up: "update gc s t = Some gc'" and inv: "index_inv gc"
  shows "index_inv gc' \<and> (heap_ord gc \<longrightarrow> heap_ord gc') \<and> heap_frame (set_ticks s t gc) gc'"
proof -
  let ?g = "set_ticks s t gc"
  let ?i = "index (mem gc s)"
  from up have fx: "Fix ?g ?i = Some gc'"
    by (auto simp: update_def Let_def set_ticks_def split: if_splits)
  have inv1: "index_inv ?g" using inv by (simp add: set_ticks_index_inv)
  have len: "length (heap ?g) = length (heap gc)" by (simp add: set_ticks_def)
  have ord: "heap_ord gc'" if h: "heap_ord gc"
  proof (cases "?i < length (heap gc)")
    case False
    with Fix_out_of_range [OF fx] len have g: "gc' = ?g" by simp
    have "s \<notin> set (heap gc)" using False index_inv_pos [OF inv] by blast
    then have "keys ?g = keys gc" by (rule set_ticks_keys_notin)
    with h g len show ?thesis by (simp add: heap_ord_def)
  next
    case True
    have "except_inv (keys ?g) ?i (length (heap gc))"
    proof (cases "s \<in> set (heap gc)")
      case True
      have "except_inv ((keys gc)[?i := t]) ?i (length (heap gc))"
        using h \<open>?i < length (heap gc)\<close> unfolding heap_ord_def by (rule is_heap_except)
      then show ?thesis by (simp add: set_ticks_keys_in [OF inv True])
    next
      case False
      have "except_inv ((keys gc)[?i := keys gc ! ?i]) ?i (length (heap gc))"
        using h \<open>?i < length (heap gc)\<close> unfolding heap_ord_def by (rule is_heap_except)
      then show ?thesis by (simp add: set_ticks_keys_notin [OF False])
    qed
    with Fix_heap [OF fx] True len show ?thesis by (simp add: heap_ord_def)
  qed
  from Fix_index_inv [OF fx inv1] ord Fix_frame [OF fx] show ?thesis by blast
qed

lemma gc_Push_inv:
  assumes push: "gc_Push gc s = Some gc'" and inv: "index_inv gc" and new: "s \<notin> set (heap gc)"
  shows "index_inv gc' \<and> (heap_ord gc \<longrightarrow> heap_ord gc')"
proof -
  let ?l = "length (heap gc)"
  define g1 where "g1 = (set_index s ?l gc)\<lparr>heap := heap gc @ [s]\<rparr>"
  have h1: "heap g1 = heap gc @ [s]" and m1: "mem g1 = (mem gc)(s := (mem gc s)\<lparr>index := ?l\<rparr>)"
    by (simp_all add: g1_def set_index_def)
  from push have fx: "Fix g1 ?l = Some gc'"
    by (simp add: gc_Push_def Let_def Len_def g1_def set_index_def)
  have inv1: "index_inv g1"
    unfolding index_inv_def
  proof (intro allI impI)
    fix k assume "k < length (heap g1)"
    then consider "k < ?l" | "k = ?l" by (auto simp: h1 less_Suc_eq)
    then show "index (mem g1 (heap g1 ! k)) = k"
    proof cases
      case 1
      then have "heap g1 ! k = heap gc ! k" "heap gc ! k \<noteq> s"
        using new by (auto simp: h1 nth_append)
      with inv 1 show ?thesis by (simp add: m1 index_inv_def)
    next
      case 2
      then show ?thesis by (simp add: h1 m1)
    qed
  qed
  have k1: "keys g1 = keys gc @ [ticks (mem gc s)]"
    using new by (auto simp: keys_def h1 m1)
  have ord: "heap_ord gc'" if h: "heap_ord gc"
  proof -
    have "except_inv (keys g1) ?l (length (heap g1))"
      unfolding except_inv_def
    proof (intro conjI allI impI)
      fix k assume k: "k < length (heap g1)" "k \<noteq> ?l \<and> (k - 1) div 2 \<noteq> ?l"
      then have "k < ?l" by (simp add: h1)
      moreover then have "(k - 1) div 2 < ?l" using parent_le [of k] by simp
      ultimately show "keys g1 ! ((k - 1) div 2) \<le> keys g1 ! k"
        using h by (simp add: k1 nth_append heap_ord_def is_heap_def)
    next
      fix c assume c: "c < length (heap g1)" "(c - 1) div 2 = ?l"
      then have "c \<le> ?l" by (simp add: h1)
      with c(2) have "?l = 0" by (rule parent_fix)
      then show "?l = 0 \<or> keys g1 ! ((?l - 1) div 2) \<le> keys g1 ! c" by (rule disjI1)
    qed
    with Fix_heap [OF fx] show ?thesis by (simp add: h1 heap_ord_def)
  qed
  from Fix_index_inv [OF fx inv1] ord show ?thesis by blast
qed

lemma up_last_inv:
  assumes "up gc (Len gc - 1) = Some gc'" and "index_inv gc"
  shows "index_inv gc' \<and> (heap_ord gc \<longrightarrow> heap_ord gc')"
proof -
  have ord: "heap_ord gc'" if h: "heap_ord gc"
  proof (cases "heap gc = []")
    case True
    then have "up gc 0 = Some gc'" using assms(1) by (simp add: Len_def)
    then have "gc' = gc" by (simp add: up_zero)
    with h show ?thesis by simp
  next
    case False
    then have lt: "Len gc - 1 < length (heap gc)" by (simp add: Len_def)
    from h have "up_inv (keys gc) (Len gc - 1) (length (heap gc))"
      unfolding heap_ord_def using lt by (rule is_heap_up_inv)
    from up_heap [OF assms(1) lt order_refl this] up_frame [OF assms(1)]
    show ?thesis by (simp add: heap_ord_def heap_frame_def)
  qed
  from up_index_inv [OF assms] ord show ?thesis by blast
qed

lemma heap_Push_inv:
  assumes "heap_Push gc s = Some gc'" and "index_inv gc" and "s \<notin> set (heap gc)"
  shows "index_inv gc' \<and> (heap_ord gc \<longrightarrow> heap_ord gc')"
proof -
  from assms(1) obtain g1 where p: "gc_Push gc s = Some g1" and u: "up g1 (Len g1 - 1) = Some gc'"
    by (auto simp: heap_Push_def split: option.splits)
  from gc_Push_inv [OF p assms(2,3)] have "index_inv g1" "heap_ord gc \<longrightarrow> heap_ord g1" by simp_all
  with up_last_inv [OF u] show ?thesis by blast
qed

lemma ctrl_add_inv:
  assumes "ctrl_add gc s = Some gc'" and "index_inv gc" and "s \<notin> set (heap gc)"
  shows "index_inv gc' \<and> (heap_ord gc \<longrightarrow> heap_ord gc')"
proof -
  let ?g = "gc\<lparr>streams := insert s (streams gc)\<rparr>"
  from assms(1) have "heap_Push ?g s = Some gc'" by (simp add: ctrl_add_def split: if_splits)
  moreover have "index_inv ?g = index_inv gc" "heap_ord ?g = heap_ord gc" "heap ?g = heap gc"
    by (simp_all add: index_inv_def heap_ord_def keys_def)
  ultimately show ?thesis using heap_Push_inv [of ?g s gc'] assms(2,3) by simp
qed

lemma gc_Pop_inv:
  assumes pop: "gc_Pop g = Some (g', x)" and inv: "index_inv g"
  shows "index_inv g' \<and> (is_heap (keys g) (length (heap g) - 1) \<longrightarrow> heap_ord g')
         \<and> heap g \<noteq> [] \<and> x = last (heap g) \<and> x \<notin> set (heap g')
         \<and> set (heap g') \<subseteq> set (heap g)"
proof -
  from pop have ne: "heap g \<noteq> []" and h': "heap g' = butlast (heap g)" and m': "mem g' = mem g"
    and x: "x = last (heap g)"
    by (auto simp: gc_Pop_def split: if_splits)
  have i': "index_inv g'"
    using inv by (simp add: index_inv_def h' m' nth_butlast)
  have k': "\<forall>k<length (heap g) - 1. keys g' ! k = keys g ! k"
    by (simp add: keys_def h' m' nth_butlast)
  have o': "heap_ord g'" if "is_heap (keys g) (length (heap g) - 1)"
    using is_heap_cong [OF that k'] by (simp add: heap_ord_def h')
  have "distinct (butlast (heap g) @ [last (heap g)])"
    using index_inv_distinct [OF inv] ne by simp
  then have "x \<notin> set (heap g')" by (simp add: h' x)
  moreover have "set (heap g') \<subseteq> set (heap g)" by (auto simp: h' dest: in_set_butlastD)
  ultimately show ?thesis using i' o' ne x by blast
qed

lemma heap_Remove_inv:
  assumes rm: "heap_Remove gc i = Some (gc', x)" and inv: "index_inv gc"
  shows "index_inv gc' \<and> (heap_ord gc \<longrightarrow> heap_ord gc')
         \<and> i < length (heap gc) \<and> x = heap gc ! i \<and> x \<notin> set (heap gc')
         \<and> set (heap gc') \<subseteq> set (heap gc)"
proof -
  let ?n = "length (heap gc) - 1"
  from rm have ne: "heap gc \<noteq> []" by (auto simp: heap_Remove_def Len_def split: if_splits)
  then have len: "length (heap gc) = Suc ?n" by simp
  show ?thesis
  proof (cases "?n = i")
    case True
    with rm ne have pop: "gc_Pop gc = Some (gc', x)"
      by (simp add: heap_Remove_def Len_def Let_def)
    have hp: "is_heap (keys gc) ?n" if "heap_ord gc"
      using that unfolding heap_ord_def by (rule is_heap_less) simp
    from gc_Pop_inv [OF pop inv] have a: "index_inv gc'"
      and b: "is_heap (keys gc) ?n \<longrightarrow> heap_ord gc'"
      and c: "x = last (heap gc)" and d: "x \<notin> set (heap gc')"
      and e: "set (heap gc') \<subseteq> set (heap gc)"
      by blast+
    have "last (heap gc) = heap gc ! i" using ne True by (simp add: last_conv_nth)
    with c have "x = heap gc ! i" by simp
    moreover have "i < length (heap gc)" using True ne by auto
    ultimately show ?thesis using a b d e hp by blast
  next
    case False
    with rm ne obtain g1 g2 moved g3 where sw: "Swap gc i ?n = Some g1"
      and dn: "down g1 i ?n = Some (g2, moved)"
      and upw: "(if \<not> moved then up g2 i else Some g2) = Some g3"
      and pop: "gc_Pop g3 = Some (gc', x)"
      by (auto simp: heap_Remove_def Len_def Let_def split: option.splits if_splits)
    from Swap_heap [OF sw] have il: "i < length (heap gc)"
      and h1: "heap g1 = (heap gc)[i := heap gc ! ?n, ?n := heap gc ! i]" by simp_all
    from il False have i: "i < ?n" by simp
    have l1: "length (heap g1) = Suc ?n" using h1 len by simp
    have last1: "heap g1 ! ?n = heap gc ! i" using h1 len by simp
    have inv1: "index_inv g1" using inv sw by (rule Swap_index_inv)
    from dn obtain k where dl: "down_loop g1 i ?n = Some (g2, k)"
      by (auto simp: down_def split: option.splits)
    have inv2: "index_inv g2" using dl inv1 by (rule down_loop_index_inv)
    have inv3: "index_inv g3" using upw inv2 by (auto split: if_splits dest: up_index_inv)
    have f12: "heap_frame g1 g2" using down_loop_frame [OF dl] by simp
    have f23: "heap_frame g2 g3" using upw by (auto split: if_splits intro: heap_frame_refl up_frame)
    have f03: "heap_frame gc g3"
      using Swap_frame [OF sw] f12 f23 by (blast intro: heap_frame_trans)
    then have l3: "length (heap g3) = Suc ?n" and s3: "set (heap g3) = set (heap gc)"
      using len by (simp_all add: heap_frame_def)
    have sift: "is_heap (keys g3) ?n \<and> (\<forall>m\<ge>?n. heap g3 ! m = heap g1 ! m)"
      if ex: "except_inv (keys g1) i ?n"
      by (rule sift_heap [OF _ i ex dn upw]) (simp add: l1)
    have k1: "keys g1 = (keys gc)[i := keys gc ! ?n, ?n := keys gc ! i]"
      using sw by (rule Swap_keys)
    have ex: "except_inv (keys g1) i ?n" if h: "heap_ord gc"
    proof -
      have "is_heap (keys gc) ?n" using h unfolding heap_ord_def by (rule is_heap_less) simp
      then have "except_inv ((keys gc)[i := keys gc ! ?n]) i ?n" using i by (rule is_heap_except)
      then show ?thesis by (rule except_inv_cong) (simp add: k1)
    qed
    text \<open>The last position is not touched whatever the keys are.\<close>
    have tail: "heap g3 ! ?n = heap gc ! i"
    proof -
      have "\<forall>m\<ge>?n. heap g2 ! m = heap g1 ! m"
        using dl
      proof (induction "?n - i" arbitrary: g1 i rule: less_induct)
        case less
        from less.prems show ?case
        proof (cases rule: down_loop_cases)
          case (swap j gx)
          from down_child_range [OF swap(2,1)] have ij: "i < j" "j < ?n" by simp_all
          then have "?n - j < ?n - i" by arith
          from less.hyps [OF this swap(5)] have "\<forall>m\<ge>?n. heap g2 ! m = heap gx ! m" .
          moreover have "heap gx ! m = heap g1 ! m" if "?n \<le> m" for m
            using Swap_heap [OF swap(4)] ij that by simp
          ultimately show ?thesis by simp
        qed simp_all
      qed
      moreover have "\<forall>m\<ge>?n. heap g3 ! m = heap g2 ! m"
      proof (cases moved)
        case True
        with upw show ?thesis by simp
      next
        case False
        with upw have "up g2 i = Some g3" by simp
        then show ?thesis using i
        proof (induction i arbitrary: g2 rule: less_induct)
          case (less i)
          from less.prems(1) show ?case
          proof (cases rule: up_cases)
            case (swap gx)
            have pi: "(i - 1) div 2 < i" using swap(1) by (rule parent_less)
            then have "(i - 1) div 2 < ?n" using less.prems(2) by simp
            from less.IH [OF pi swap(4) this] have "\<forall>m\<ge>?n. heap g3 ! m = heap gx ! m" .
            moreover have "heap gx ! m = heap g2 ! m" if "?n \<le> m" for m
              using Swap_heap [OF swap(3)] pi less.prems(2) that by simp
            ultimately show ?thesis by simp
          qed simp_all
        qed
      qed
      ultimately show ?thesis using last1 by simp
    qed
    have "heap g3 \<noteq> []" using l3 by auto
    then have "last (heap g3) = heap g3 ! (length (heap g3) - 1)" by (rule last_conv_nth)
    then have "last (heap g3) = heap g3 ! ?n" using l3 by simp
    with tail have lastx: "last (heap g3) = heap gc ! i" by simp
    have hp: "is_heap (keys g3) (length (heap g3) - 1)" if "heap_ord gc"
      using sift [OF ex [OF that]] l3 by simp
    from gc_Pop_inv [OF pop inv3] have a: "index_inv gc'"
      and b: "is_heap (keys g3) (length (heap g3) - 1) \<longrightarrow> heap_ord gc'"
      and c: "x = last (heap g3)" and d: "x \<notin> set (heap gc')"
      and e: "set (heap gc') \<subseteq> set (heap g3)"
      by blast+
    from c lastx have "x = heap gc ! i" by simp
    then show ?thesis using a b d e hp s3 il by blast
  qed
qed

lemma ctrl_remove_inv:
  assumes rm: "ctrl_remove gc s = Some gc'" and inv: "index_inv gc"
  shows "index_inv gc' \<and> (heap_ord gc \<longrightarrow> heap_ord gc')"
proof (cases "s \<in> streams gc")
  case False
  with rm have "gc' = gc" by (simp add: ctrl_remove_def)
  with inv show ?thesis by simp
next
  case True
  with rm obtain g1 x where hr: "heap_Remove gc (index (mem gc s)) = Some (g1, x)"
    and g': "gc' = set_ticks s 1 g1"
    by (auto simp: ctrl_remove_def split: option.splits)
  from heap_Remove_inv [OF hr inv] have inv1: "index_inv g1" and ord1: "heap_ord gc \<longrightarrow> heap_ord g1"
    and x: "x = heap gc ! index (mem gc s)" and out: "x \<notin> set (heap g1)"
    and sub: "set (heap g1) \<subseteq> set (heap gc)"
    by blast+
  have "s \<notin> set (heap g1)"
  proof (cases "s \<in> set (heap gc)")
    case True
    from index_inv_pos [OF inv True] x have "x = s" by simp
    with out show ?thesis by simp
  next
    case False
    with sub show ?thesis by blast
  qed
  then have "keys gc' = keys g1" unfolding g' by (rule set_ticks_keys_notin)
  moreover have "heap gc' = heap g1" by (simp add: g' set_ticks_def)
  ultimately have "heap_ord gc' = heap_ord g1" by (simp add: heap_ord_def)
  with inv1 ord1 show ?thesis by (simp add: g' set_ticks_index_inv)
qed

subsection \<open>C6: the indices and the order of the heap\<close>

lemma range_streams_inv:
  assumes step: "\<And>g s g'. P g \<Longrightarrow> s \<in> streams g \<Longrightarrow> body g s = Some g' \<Longrightarrow> P g'"
  shows "range_streams body gc order = Some gc' \<Longrightarrow> P gc \<Longrightarrow> P gc'"
proof (induction order arbitrary: gc)
  case Nil
  then show ?case by simp
next
  case (Cons s order)
  show ?case
  proof (cases "s \<in> streams gc")
    case False
    with Cons show ?thesis by simp
  next
    case True
    with Cons.prems(1) obtain g1 where b: "body gc s = Some g1"
      and r: "range_streams body g1 order = Some gc'"
      by (auto split: option.splits)
    from step [OF Cons.prems(2) True b] have "P g1" .
    with r show ?thesis by (rule Cons.IH)
  qed
qed

lemma heap_frame_terminated: "heap_frame g g' \<Longrightarrow> terminated (mem g' s) = terminated (mem g s)"
proof -
  assume "heap_frame g g'"
  then have "unindexed (mem g' s) = unindexed (mem g s)"
    by (simp add: heap_frame_def fun_eq_iff)
  then show ?thesis by (rule unindexed_eqD)
qed

lemma heap_frame_dead_out: "heap_frame g g' \<Longrightarrow> dead_out g' = dead_out g"
  by (simp add: dead_out_def heap_frame_terminated) (simp add: heap_frame_def)

lemma set_ticks_dead_out: "dead_out (set_ticks s t gc) = dead_out gc"
proof -
  have "terminated (mem (set_ticks s t gc) l) = terminated (mem gc l)" for l
    by (simp add: set_ticks_def)
  moreover have "heap (set_ticks s t gc) = heap gc" "streams (set_ticks s t gc) = streams gc"
    by (simp_all add: set_ticks_def)
  ultimately show ?thesis by (simp add: dead_out_def)
qed

lemma update_dead_out: "update gc s t = Some gc' \<Longrightarrow> index_inv gc \<Longrightarrow> dead_out gc' = dead_out gc"
  using update_inv [of gc s t gc'] heap_frame_dead_out [of "set_ticks s t gc" gc']
  by (simp add: set_ticks_dead_out)

lemma do_terminated_heap:
  assumes "do_terminated gc s = Some gc'"
  shows "heap gc' = heap gc \<and> streams gc' \<subseteq> streams gc
         \<and> (\<forall>l. index (mem gc' l) = index (mem gc l) \<and> terminated (mem gc' l) = terminated (mem gc l)
                \<and> (l \<noteq> s \<longrightarrow> ticks (mem gc' l) = ticks (mem gc l)))"
  using assms
  by (auto simp: do_terminated_def Let_def set_ticks_def split: if_splits)

lemma do_first_index_inv:
  assumes "do_first gc s = Some gc'" and "index_inv gc"
  shows "index_inv gc'"
proof (cases "terminated (mem gc s)")
  case True
  with assms(1) have "do_terminated gc s = Some gc'" by (simp add: do_first_def)
  from do_terminated_heap [OF this] assms(2) show ?thesis by (simp add: index_inv_def)
next
  case False
  with assms show ?thesis
    by (auto simp: do_first_def split: if_splits dest: update_inv)
qed

lemma do_first_tick_inv:
  assumes d: "do_first gc s = Some gc'" and reg: "s \<in> streams gc" and inv: "tick_inv gc"
  shows "tick_inv gc'"
proof (cases "terminated (mem gc s)")
  case True
  with d have dt: "do_terminated gc s = Some gc'" by (simp add: do_first_def)
  note h = do_terminated_heap [OF dt]
  from inv reg True have out: "s \<notin> set (heap gc)" by (simp add: tick_inv_def dead_out_def)
  have "keys gc' = keys gc"
    unfolding keys_def using h out by (auto simp: map_eq_conv)
  moreover have "index_inv gc'" using h inv by (simp add: index_inv_def tick_inv_def)
  moreover have "dead_out gc'" using h inv by (auto simp: dead_out_def tick_inv_def)
  ultimately show ?thesis using inv h by (simp add: tick_inv_def heap_ord_def)
next
  case False
  show ?thesis
  proof (cases "sessST (mem gc s) = active")
    case True
    with d False have u: "update gc s (ticks (mem gc s) - 1) = Some gc'" by (simp add: do_first_def)
    from update_inv [OF u] update_dead_out [OF u] inv show ?thesis by (simp add: tick_inv_def)
  next
    case nact: False
    with d False have "gc' = gc" by (simp add: do_first_def)
    with inv show ?thesis by simp
  qed
qed

lemma do_second_inv:
  assumes d: "do_second tu tm gc s = Some gc'" and inv: "index_inv gc"
  shows "index_inv gc' \<and> (heap_ord gc \<longrightarrow> heap_ord gc') \<and> (dead_out gc \<longrightarrow> dead_out gc')"
proof (cases "0 < ticks (mem gc s)")
  case True
  with d have "gc' = gc" by (simp add: do_second_def)
  with inv show ?thesis by simp
next
  case False
  with d obtain g1 where u: "update gc s (sint (div64 (idleOut (mem gc s)) tu)) = Some g1"
    by (auto simp: do_second_def split: option.splits)
  from d False u have same: "heap gc' = heap g1" "streams gc' = streams g1"
    "\<forall>l. index (mem gc' l) = index (mem g1 l) \<and> ticks (mem gc' l) = ticks (mem g1 l)
        \<and> terminated (mem gc' l) = terminated (mem g1 l)"
    by (auto simp: do_second_def Let_def split: if_splits)
  then have "index_inv gc' = index_inv g1" "keys gc' = keys g1" "dead_out gc' = dead_out g1"
    by (simp_all add: index_inv_def keys_def dead_out_def)
  with update_inv [OF u inv] update_dead_out [OF u inv] same(1) show ?thesis
    by (simp add: heap_ord_def)
qed

lemma do_index_inv:
  assumes "do tu tm gc order1 order2 = Some gc'" and "index_inv gc"
  shows "index_inv gc'"
proof -
  from assms(1) obtain g1 where l1: "range_streams do_first gc order1 = Some g1"
    and l2: "range_streams (do_second tu tm) g1 order2 = Some gc'"
    by (auto simp: do_def split: option.splits)
  have g1: "index_inv g1"
    by (rule range_streams_inv [where P = index_inv, OF _ l1 assms(2)]) (rule do_first_index_inv)
  show ?thesis
    by (rule range_streams_inv [where P = index_inv, OF _ l2 g1]) (use do_second_inv in blast)
qed

lemma do_tick_inv:
  assumes "do tu tm gc order1 order2 = Some gc'" and "tick_inv gc"
  shows "tick_inv gc'"
proof -
  from assms(1) obtain g1 where l1: "range_streams do_first gc order1 = Some g1"
    and l2: "range_streams (do_second tu tm) g1 order2 = Some gc'"
    by (auto simp: do_def split: option.splits)
  have g1: "tick_inv g1"
    by (rule range_streams_inv [where P = tick_inv, OF _ l1 assms(2)]) (rule do_first_tick_inv)
  show ?thesis
  proof (rule range_streams_inv [where P = tick_inv, OF _ l2 g1])
    fix g s g' assume "tick_inv g" "do_second tu tm g s = Some g'"
    with do_second_inv [of tu tm g s g'] show "tick_inv g'" by (simp add: tick_inv_def)
  qed
qed

text \<open>
  The indices and the binary min-heap. If the stored heap index of every stream in the
  heap equals its position in the heap array, then it does so again after every control
  event and every tick that the collector gets through, a stream that is added being one
  that is not in the heap yet. The order that \<^verbatim>\<open>container/heap\<close> keeps is the one of a
  binary min-heap, \<open>heap[(i-1)/2].ticks \<le> heap[i].ticks\<close>, and one step keeps it when it
  is an add, a remove, or a tick at whose start no terminated stream of the map is still
  in the heap.
\<close>

lemma run_step_invariant:
  assumes "run_step tickUnit tickMarker gc ev = Some gc'" and "index_inv gc" and "event_fresh gc ev"
  shows "index_inv gc' \<and> (heap_ord gc \<and> event_dead_out gc ev \<longrightarrow> heap_ord gc')"
proof (cases ev)
  case (Add s)
  with assms ctrl_add_inv [of gc s gc'] show ?thesis by simp
next
  case (Remove s)
  with assms ctrl_remove_inv [of gc s gc'] show ?thesis by simp
next
  case (Tick order1 order2)
  with assms(1) have d: "do tickUnit tickMarker gc order1 order2 = Some gc'" by simp
  from do_index_inv [OF d assms(2)] do_tick_inv [OF d] assms(2) Tick show ?thesis
    by (auto simp: tick_inv_def)
qed

lemmas run_eval = ctrl_add_def heap_Push_def gc_Push_def Fix_def down_def down_loop_stop down_loop_step
  down_child_def up_zero up_pos Less_def Swap_def Len_def set_index_def set_ticks_def Let_def

lemma run_step_invariant_instance:
  "map_option (\<lambda>g. index_inv g \<and> heap_ord g)
     (run_step 1000000000 9223372036854775807 gc_ab (Add ''c'')) = Some True"
proof -
  have i: "index_inv gc_ab"
    by (simp add: index_inv_def gc_ab_def less_Suc_eq)
  have o: "heap_ord gc_ab"
    by (simp add: heap_ord_def is_heap_def keys_def gc_ab_def stream_idle_def less_Suc_eq)
  have f: "event_fresh gc_ab (Add ''c'')" by (simp add: gc_ab_def)
  have d: "event_dead_out gc_ab (Add ''c'')" by simp
  have "\<exists>g. run_step 1000000000 9223372036854775807 gc_ab (Add ''c'') = Some g"
    by (simp add: run_eval gc_ab_def stream_idle_def)
  then obtain g where r: "run_step 1000000000 9223372036854775807 gc_ab (Add ''c'') = Some g" ..
  from run_step_invariant [OF r i f] o d have "index_inv g \<and> heap_ord g" by simp
  with r show ?thesis by simp
qed

text \<open>
  C6. The code does not keep the second half of the claim, which is also what the comment
  at the end of \<^verbatim>\<open>do()\<close> says must be true there. Streams with 2, 4 and 3 ticks are
  added in this order and one tick follows: every stored index equals its position, but
  the heap array holds the ticks 1, 3, 2, and 3 is followed by 2. And on a tick that
  finds a terminated stream still in the heap, the first loop decrements its ticks
  without the \<^verbatim>\<open>heap.Fix\<close> that an active stream gets through \<^verbatim>\<open>update\<close>: the array
  then holds 2 above 1, which is not even in the order of a min-heap.
\<close>

theorem do_breaks_heap_order:
  "map_option (\<lambda>g. (heap g, map (\<lambda>s. index (mem g s)) (heap g), keys g, heap_sorted g))
     (run 1000000000 9223372036854775807 gc_243
        [Add ''a'', Add ''b'', Add ''c'', Tick [''a'', ''b'', ''c''] [''a'', ''b'', ''c'']])
   = Some ([''a'', ''b'', ''c''], [0, 1, 2], [1, 3, 2], False)
   \<and> map_option keys (do 1000000000 9223372036854775807 gc_late [''a'', ''b''] [''a'', ''b''])
     = Some [2, 1]"
  by (simp add: run_eval do_eval gc_243_def gc_late_def stream_idle_def stream_dead_def keys_def
      heap_sorted_def)

subsection \<open>A tick on a ready collector returns\<close>

lemma up_total: "j < Len gc \<Longrightarrow> \<exists>gc'. up gc j = Some gc'"
proof (induction j arbitrary: gc rule: less_induct)
  case (less j)
  show ?case
  proof (cases "j = 0")
    case True
    then show ?thesis by (simp add: up_zero)
  next
    case False
    then have pos: "0 < j" by simp
    let ?p = "(j - 1) div 2"
    have pj: "?p < j" using pos by (rule parent_less)
    with less.prems have pl: "?p < Len gc" by simp
    obtain lt where l: "Less gc j ?p = Some lt"
      using less.prems pl by (simp add: Less_def)
    show ?thesis
    proof (cases lt)
      case False
      with l show ?thesis by (simp add: up_pos [OF pos])
    next
      case True
      obtain g1 where sw: "Swap gc ?p j = Some g1"
        using less.prems pl by (simp add: Swap_def Let_def)
      from Swap_Len [OF sw] pl have "?p < Len g1" by simp
      from less.IH [OF pj this] obtain g' where "up g1 ?p = Some g'" ..
      with l True sw show ?thesis by (simp add: up_pos [OF pos])
    qed
  qed
qed

lemma down_loop_total: "n \<le> Len gc \<Longrightarrow> \<exists>r. down_loop gc i n = Some r"
proof (induction "n - i" arbitrary: gc i rule: less_induct)
  case less
  show ?case
  proof (cases "n \<le> 2 * i + 1")
    case True
    then show ?thesis by (simp add: down_loop_stop)
  next
    case False
    then have lt: "2 * i + 1 < n" by simp
    have "\<exists>j. down_child gc i n = Some j"
    proof (cases "2 * i + 2 < n")
      case True
      with less.prems have "Less gc (2 * i + 2) (2 * i + 1) \<noteq> None" by (simp add: Less_def)
      with True show ?thesis by (auto simp: down_child_def)
    next
      case False
      then show ?thesis by (simp add: down_child_def)
    qed
    then obtain j where c: "down_child gc i n = Some j" ..
    from down_child_range [OF c lt] have ij: "i < j" "j < n" by simp_all
    obtain b where l: "Less gc j i = Some b"
      using ij less.prems by (simp add: Less_def)
    show ?thesis
    proof (cases b)
      case False
      with c l show ?thesis by (simp add: down_loop_step [OF lt])
    next
      case True
      obtain g1 where sw: "Swap gc i j = Some g1"
        using ij less.prems by (simp add: Swap_def Let_def)
      have "n - j < n - i" using ij by arith
      moreover have "n \<le> Len g1" using Swap_Len [OF sw] less.prems by simp
      ultimately obtain r where "down_loop g1 j n = Some r" using less.hyps by blast
      with c l True sw show ?thesis by (simp add: down_loop_step [OF lt])
    qed
  qed
qed

lemma Fix_total:
  assumes "i < Len gc"
  shows "\<exists>gc'. Fix gc i = Some gc'"
proof -
  obtain g1 k where d: "down_loop gc i (Len gc) = Some (g1, k)"
    using down_loop_total [of "Len gc" gc i] by auto
  have "Len g1 = Len gc" using down_loop_frame [OF d] by (simp add: heap_frame_def Len_def)
  with assms obtain g2 where "up g1 i = Some g2" using up_total [of i g1] by auto
  with d show ?thesis by (simp add: Fix_def down_def)
qed

lemma update_total:
  assumes "0 \<le> t" and "index_inv gc" and "s \<in> set (heap gc)"
  shows "\<exists>gc'. update gc s t = Some gc'"
proof -
  from index_inv_pos [OF assms(2,3)] have "index (mem gc s) < Len (set_ticks s t gc)"
    by (simp add: Len_def set_ticks_def)
  moreover have "index (mem (set_ticks s t gc) s) = index (mem gc s)" by (simp add: set_ticks_def)
  ultimately obtain g' where "Fix (set_ticks s t gc) (index (mem (set_ticks s t gc) s)) = Some g'"
    using Fix_total by fastforce
  with assms(1) show ?thesis by (simp add: update_def Let_def set_ticks_def)
qed

lemma stream_preds_cong:
  assumes "unindexed (mem g' l) = unindexed (mem g l)" and "set (heap g') = set (heap g)"
  shows "stream_ready tu g' l = stream_ready tu g l" "stream_fresh g' l = stream_fresh g l"
    "stream_ticked g' l = stream_ticked g l"
  using unindexed_eqD [OF assms(1)] assms(2)
  by (simp_all add: stream_ready_def stream_fresh_def stream_ticked_def)

lemma range_streams_total:
  assumes step: "\<And>g s rest. I (s # rest) g \<Longrightarrow> s \<in> streams g \<Longrightarrow> \<exists>g'. body g s = Some g' \<and> I rest g'"
    and skip: "\<And>g s rest. I (s # rest) g \<Longrightarrow> s \<notin> streams g \<Longrightarrow> I rest g"
  shows "I order gc \<Longrightarrow> \<exists>gc'. range_streams body gc order = Some gc' \<and> I [] gc'"
proof (induction order arbitrary: gc)
  case Nil
  then show ?case by simp
next
  case (Cons s order)
  show ?case
  proof (cases "s \<in> streams gc")
    case False
    from skip [OF Cons.prems False] have "I order gc" .
    from Cons.IH [OF this] False show ?thesis by simp
  next
    case True
    from step [OF Cons.prems True] obtain g1 where b: "body gc s = Some g1" and i: "I order g1"
      by blast
    from Cons.IH [OF i] b True show ?thesis by simp
  qed
qed

lemma do_first_ready:
  assumes inv: "first_inv tu (s # rest) gc" and new: "s \<notin> set rest" and reg: "s \<in> streams gc"
  shows "\<exists>gc'. do_first gc s = Some gc' \<and> first_inv tu rest gc'"
proof -
  from inv have ii: "index_inv gc"
    and all: "\<And>l. l \<in> streams gc \<Longrightarrow> stream_ready tu gc l"
    and fr: "\<And>l. l \<in> streams gc \<Longrightarrow> l \<in> set (s # rest) \<Longrightarrow> stream_fresh gc l"
    and tk: "\<And>l. l \<in> streams gc \<Longrightarrow> l \<notin> set (s # rest) \<Longrightarrow> stream_ticked gc l"
    by (auto simp: first_inv_def split: if_splits)
  from all [OF reg] have open_s: "\<not> workCh_closed (mem gc s)"
    and in_s: "\<not> terminated (mem gc s) \<Longrightarrow> s \<in> set (heap gc)"
    by (simp_all add: stream_ready_def)
  consider (dead) "terminated (mem gc s)"
    | (act) "\<not> terminated (mem gc s)" "sessST (mem gc s) = active"
    | (idle) "\<not> terminated (mem gc s)" "sessST (mem gc s) \<noteq> active"
    by blast
  then show ?thesis
  proof cases
    case dead
    have "do_terminated gc s \<noteq> None"
      using open_s by (auto simp: do_terminated_def Let_def set_ticks_def)
    then obtain g' where d: "do_terminated gc s = Some g'" by blast
    note h = do_terminated_heap [OF d]
    have others: "mem g' l = mem gc l" if "l \<noteq> s" for l
      using d that by (auto simp: do_terminated_def Let_def set_ticks_def split: if_splits)
    have self: "s \<in> streams g' \<Longrightarrow> unindexed (mem g' s) = unindexed ((mem gc s)\<lparr>ticks := ticks (mem gc s) - 1\<rparr>)
          \<and> 0 < ticks (mem gc s) - 1"
      using d by (auto simp: do_terminated_def Let_def set_ticks_def split: if_splits)
    have "first_inv tu rest g'"
      unfolding first_inv_def
    proof (intro conjI ballI)
      show "index_inv g'" using h ii by (simp add: index_inv_def)
    next
      fix l assume l: "l \<in> streams g'"
      then have lo: "l \<in> streams gc" using h by blast
      show "stream_ready tu g' l"
      proof (cases "l = s")
        case False
        with others all [OF lo] h show ?thesis by (simp add: stream_ready_def)
      next
        case True
        with self l have "unindexed (mem g' l) = unindexed ((mem gc l)\<lparr>ticks := ticks (mem gc l) - 1\<rparr>)"
          by simp
        from unindexed_eqD [OF this] all [OF lo] h show ?thesis by (simp add: stream_ready_def)
      qed
      show "if l \<in> set rest then stream_fresh g' l else stream_ticked g' l"
      proof (cases "l = s")
        case False
        with others have "mem g' l = mem gc l" by simp
        with fr [OF lo] tk [OF lo] False show ?thesis
          by (simp add: stream_fresh_def stream_ticked_def)
      next
        case True
        with self l have u: "unindexed (mem g' l) = unindexed ((mem gc l)\<lparr>ticks := ticks (mem gc l) - 1\<rparr>)"
          and pos: "0 < ticks (mem gc l) - 1"
          by simp_all
        from unindexed_eqD [OF u] pos True new show ?thesis by (simp add: stream_ticked_def)
      qed
    qed
    with d dead show ?thesis by (simp add: do_first_def)
  next
    case act
    from fr [OF reg] act have "0 \<le> ticks (mem gc s) - 1" by (simp add: stream_fresh_def)
    from update_total [OF this ii in_s [OF act(1)]]
    obtain g' where u: "update gc s (ticks (mem gc s) - 1) = Some g'" ..
    from update_inv [OF u ii] have ii': "index_inv g'"
      and f: "heap_frame (set_ticks s (ticks (mem gc s) - 1) gc) g'" by simp_all
    from f have st: "streams g' = streams gc" and hs: "set (heap g') = set (heap gc)"
      and un: "\<And>l. unindexed (mem g' l) = unindexed (mem (set_ticks s (ticks (mem gc s) - 1) gc) l)"
      by (simp_all add: heap_frame_def set_ticks_def fun_eq_iff)
    have uo: "unindexed (mem g' l) = unindexed (mem gc l)" if "l \<noteq> s" for l
      using un [of l] that by (simp add: set_ticks_def)
    have us: "unindexed (mem g' s) = unindexed ((mem gc s)\<lparr>ticks := ticks (mem gc s) - 1\<rparr>)"
      using un [of s] by (simp add: set_ticks_def)
    have "first_inv tu rest g'"
      unfolding first_inv_def
    proof (intro conjI ballI)
      show "index_inv g'" by (rule ii')
    next
      fix l assume "l \<in> streams g'"
      then have lo: "l \<in> streams gc" using st by simp
      show "stream_ready tu g' l"
      proof (cases "l = s")
        case False
        from stream_preds_cong(1) [OF uo [OF False] hs] all [OF lo] show ?thesis by simp
      next
        case True
        from unindexed_eqD [OF us] all [OF reg] hs True show ?thesis by (simp add: stream_ready_def)
      qed
      show "if l \<in> set rest then stream_fresh g' l else stream_ticked g' l"
      proof (cases "l = s")
        case False
        from stream_preds_cong(2,3) [OF uo [OF False] hs] fr [OF lo] tk [OF lo] False
        show ?thesis by simp
      next
        case True
        from unindexed_eqD [OF us] act(1) True new show ?thesis by (simp add: stream_ticked_def)
      qed
    qed
    with u act show ?thesis by (simp add: do_first_def)
  next
    case idle
    have "first_inv tu rest gc"
      unfolding first_inv_def
    proof (intro conjI ballI)
      show "index_inv gc" by (rule ii)
    next
      fix l assume lo: "l \<in> streams gc"
      show "stream_ready tu gc l" by (rule all [OF lo])
      show "if l \<in> set rest then stream_fresh gc l else stream_ticked gc l"
      proof (cases "l = s")
        case False
        with fr [OF lo] tk [OF lo] show ?thesis by simp
      next
        case True
        with idle(1) new show ?thesis by (simp add: stream_ticked_def)
      qed
    qed
    with idle show ?thesis by (simp add: do_first_def)
  qed
qed

lemma do_second_ready:
  assumes inv: "second_inv tu gc" and reg: "s \<in> streams gc"
  shows "\<exists>gc'. do_second tu tm gc s = Some gc' \<and> second_inv tu gc'"
proof (cases "0 < ticks (mem gc s)")
  case True
  with inv show ?thesis by (simp add: do_second_def)
next
  case False
  let ?t = "sint (div64 (idleOut (mem gc s)) tu)"
  from inv have ii: "index_inv gc"
    and all: "\<And>l. l \<in> streams gc \<Longrightarrow> stream_ready tu gc l"
    and tk: "\<And>l. l \<in> streams gc \<Longrightarrow> stream_ticked gc l"
    by (simp_all add: second_inv_def)
  from tk [OF reg] False have live: "\<not> terminated (mem gc s)"
    by (auto simp: stream_ticked_def split: if_splits)
  from all [OF reg] live have mem_s: "s \<in> set (heap gc)" and pos: "0 \<le> ?t"
    and open_s: "\<not> workCh_closed (mem gc s)"
    by (simp_all add: stream_ready_def)
  from update_total [OF pos ii mem_s] obtain g1 where u: "update gc s ?t = Some g1" ..
  from update_inv [OF u ii] have ii1: "index_inv g1" and f: "heap_frame (set_ticks s ?t gc) g1"
    by simp_all
  from f have st: "streams g1 = streams gc" and hs: "set (heap g1) = set (heap gc)"
    and un: "\<And>l. unindexed (mem g1 l) = unindexed (mem (set_ticks s ?t gc) l)"
    by (simp_all add: heap_frame_def set_ticks_def fun_eq_iff)
  have uo: "unindexed (mem g1 l) = unindexed (mem gc l)" if "l \<noteq> s" for l
    using un [of l] that by (simp add: set_ticks_def)
  have us: "unindexed (mem g1 s) = unindexed ((mem gc s)\<lparr>ticks := ?t\<rparr>)"
    using un [of s] by (simp add: set_ticks_def)
  from unindexed_eqD [OF us] open_s live have open1: "\<not> workCh_closed (mem g1 s)"
    and live1: "\<not> terminated (mem g1 s)" by simp_all
  have "do_second tu tm gc s \<noteq> None"
    using False u open1 by (auto simp: do_second_def Let_def)
  then obtain gc' where d: "do_second tu tm gc s = Some gc'" by blast
  from d False u have same: "heap gc' = heap g1" "streams gc' = streams g1"
    and flds: "\<And>l. index (mem gc' l) = index (mem g1 l) \<and> ticks (mem gc' l) = ticks (mem g1 l)
        \<and> terminated (mem gc' l) = terminated (mem g1 l)
        \<and> workCh_closed (mem gc' l) = workCh_closed (mem g1 l)
        \<and> idleOut (mem gc' l) = idleOut (mem g1 l)"
    by (auto simp: do_second_def Let_def split: if_splits)
  have "second_inv tu gc'"
    unfolding second_inv_def
  proof (intro conjI ballI)
    show "index_inv gc'" using ii1 same flds by (simp add: index_inv_def)
  next
    fix l assume "l \<in> streams gc'"
    then have lo: "l \<in> streams gc" using same st by simp
    have r1: "stream_ready tu gc' l = stream_ready tu g1 l"
      and t1: "stream_ticked gc' l = stream_ticked g1 l"
      using flds [of l] same by (simp_all add: stream_ready_def stream_ticked_def)
    show "stream_ready tu gc' l"
    proof (cases "l = s")
      case False
      from stream_preds_cong(1) [OF uo [OF False] hs] all [OF lo] r1 show ?thesis by simp
    next
      case True
      from unindexed_eqD [OF us] all [OF reg] hs True have "stream_ready tu g1 l"
        by (simp add: stream_ready_def)
      with r1 show ?thesis by simp
    qed
    show "stream_ticked gc' l"
    proof (cases "l = s")
      case False
      from stream_preds_cong(3) [OF uo [OF False] hs] tk [OF lo] t1 show ?thesis by simp
    next
      case True
      with live1 t1 show ?thesis by (simp add: stream_ticked_def)
    qed
  qed
  with d show ?thesis by blast
qed

text \<open>
  A collector is ready for a tick when the heap indices are right, no registered stream
  has its queue closed, every registered stream that is not terminated is in the heap,
  every idle timeout is a non-negative number of ticks, and every registered active
  stream has at least one tick left. On such a collector \<^verbatim>\<open>do()\<close> returns, whatever the
  two orders of iteration, provided the first one visits no key twice.
\<close>

lemma do_returns:
  assumes inv: "first_inv tickUnit order1 gc" and ord: "distinct order1"
  shows "\<exists>gc'. do tickUnit tickMarker gc order1 order2 = Some gc'"
proof -
  define I where "I = (\<lambda>rest g. first_inv tickUnit rest g \<and> distinct rest)"
  have "\<exists>g1. range_streams do_first gc order1 = Some g1 \<and> I [] g1"
  proof (rule range_streams_total [where I = I])
    fix g s rest
    assume i: "I (s # rest) g" and r: "s \<in> streams g"
    from i have a: "first_inv tickUnit (s # rest) g" and b: "s \<notin> set rest" and c: "distinct rest"
      by (simp_all add: I_def)
    from do_first_ready [OF a b r] c show "\<exists>g'. do_first g s = Some g' \<and> I rest g'"
      by (simp add: I_def)
  next
    fix g s rest
    assume i: "I (s # rest) g" and r: "s \<notin> streams g"
    then have "first_inv tickUnit rest g"
      by (auto simp: I_def first_inv_def split: if_splits)
    with i show "I rest g" by (simp add: I_def)
  next
    from inv ord show "I order1 gc" by (simp add: I_def)
  qed
  then obtain g1 where l1: "range_streams do_first gc order1 = Some g1"
    and i1: "first_inv tickUnit [] g1"
    by (auto simp: I_def)
  from i1 have s1: "second_inv tickUnit g1" by (simp add: first_inv_def second_inv_def)
  define J where "J = (\<lambda>(rest :: string list) g. second_inv tickUnit g)"
  have "\<exists>g2. range_streams (do_second tickUnit tickMarker) g1 order2 = Some g2 \<and> J [] g2"
  proof (rule range_streams_total [where I = J])
    fix g s rest
    assume "J (s # rest) g" and r: "s \<in> streams g"
    then have "second_inv tickUnit g" by (simp add: J_def)
    from do_second_ready [OF this r]
    show "\<exists>g'. do_second tickUnit tickMarker g s = Some g' \<and> J rest g'" by (simp add: J_def)
  next
    fix g s rest
    assume "J (s # rest) g"
    then show "J rest g" by (simp add: J_def)
  next
    from s1 show "J order2 g1" by (simp add: J_def)
  qed
  with l1 show ?thesis by (auto simp: do_def)
qed

lemma first_inv_gc_idle: "first_inv 1000000000 [''s1''] gc_idle"
  by (simp add: first_inv_def index_inv_def stream_ready_def stream_fresh_def gc_idle_def
      stream_idle_def div64_def signed_divide_int_def)

lemma do_returns_gc_idle: "\<exists>gc'. do 1000000000 tickMarker gc_idle [''s1''] order2 = Some gc'"
  by (rule do_returns [OF first_inv_gc_idle]) simp

end
